theory Spec2Isabelle
  imports Main "HOL-Library.Multiset" "HOL-Library.AList" "HOL-Library.Char_ord"
    "HOL-Library.List_Lexorder" "HOL-Library.FuncSet"
begin

section \<open>Domain model (package model)\<close>

text \<open>
  The sentinel errors of package model and of package repository live in one type, as Go's
  \<open>error\<close> interface holds either. \<open>Panic\<close> stands for a Go runtime panic (slice bounds out
  of range), which is not an error value in Go but ends the call all the same.
\<close>

datatype err =
    RepoErrNotFound
  | RepoErrAlreadyExists
  | ErrNotFound
  | ErrTeamExists
  | ErrPRExists
  | ErrPRMerged
  | ErrNotAssigned
  | ErrNoCandidate
  | ErrBadRequest
  | ErrInternal
  | Panic

datatype PRStatus = PROpen | PRMerged

text \<open>An instant (\<open>time.Time\<close>, \<open>TIMESTAMPTZ\<close>): a count of time units since an epoch.\<close>

type_synonym time = int

record TeamMember =
  tmUserID :: string
  tmUsername :: string
  tmIsActive :: bool

record Team =
  tTeamName :: string
  Members :: "TeamMember list"

record User =
  UserID :: string
  Username :: string
  TeamName :: string
  IsActive :: bool

record PullRequest =
  ID :: string
  Name :: string
  AuthorID :: string
  Status :: PRStatus
  AssignedReviewers :: "string list"
  CreatedAt :: "time option"
  MergedAt :: "time option"

record PullRequestShort =
  sID :: string
  sName :: string
  sAuthorID :: string
  sStatus :: PRStatus

section \<open>Candidate selection (package service)\<close>

text \<open>
  \<open>excludeSet\<close> is the Go map \<open>map[string]struct{}\<close> built at the start of
  \<open>activeReviewers\<close>: the author first, then every entry of \<open>exclude\<close>.
\<close>

definition excludeSet :: "string \<Rightarrow> string list \<Rightarrow> string set" where
  "excludeSet authorID exclude = foldl (\<lambda>s i. insert i s) (insert authorID {}) exclude"

text \<open>The loop over \<open>users\<close>, with \<open>result\<close> as the slice that is appended to.\<close>

fun activeReviewers_loop :: "string set \<Rightarrow> User list \<Rightarrow> string list \<Rightarrow> string list" where
  "activeReviewers_loop ex [] result = result"
| "activeReviewers_loop ex (u # us) result =
     (if \<not> IsActive u then activeReviewers_loop ex us result
      else if UserID u \<in> ex then activeReviewers_loop ex us result
      else activeReviewers_loop ex us (result @ [UserID u]))"

definition activeReviewers :: "User list \<Rightarrow> string \<Rightarrow> string list \<Rightarrow> string list" where
  "activeReviewers users authorID exclude =
     activeReviewers_loop (excludeSet authorID exclude) users []"

text \<open>
  \<open>rand.Shuffle(n, swap)\<close> of the Go standard library is a Fisher-Yates shuffle: for
  \<open>i\<close> from \<open>n - 1\<close> down to \<open>1\<close> it draws \<open>j\<close> in \<open>[0, i]\<close> and calls \<open>swap(i, j)\<close>. The
  generator (seeded from the clock just before) is the parameter \<open>rng\<close>: \<open>rng i\<close> is the raw
  draw of round \<open>i\<close>, reduced to \<open>[0, i]\<close>.
\<close>

definition swap :: "string list \<Rightarrow> nat \<Rightarrow> nat \<Rightarrow> string list" where
  "swap ids i j = ids[i := ids ! j, j := ids ! i]"

fun Shuffle :: "(nat \<Rightarrow> nat) \<Rightarrow> nat \<Rightarrow> string list \<Rightarrow> string list" where
  "Shuffle rng 0 ids = ids"
| "Shuffle rng (Suc i) ids = Shuffle rng i (swap ids (Suc i) (rng (Suc i) mod (Suc i + 1)))"

text \<open>
  \<open>selectRandom\<close> on the contents of the slices. \<open>limit\<close> is a Go \<open>int\<close>; with a negative
  \<open>limit\<close> the slice expression \<open>ids[:limit]\<close> panics (\<open>None\<close>).
\<close>

definition selectRandom :: "(nat \<Rightarrow> nat) \<Rightarrow> string list \<Rightarrow> int \<Rightarrow> string list option" where
  "selectRandom rng ids limit =
     (if int (length ids) \<le> limit then Some ids
      else
        let ids' = Shuffle rng (length ids - 1) ids
        in if limit < 0 then None else Some (take (nat limit) ids'))"

definition isReviewerAssigned :: "string list \<Rightarrow> string \<Rightarrow> bool" where
  "isReviewerAssigned reviewers userID = list_ex (\<lambda>r. r = userID) reviewers"


subsection \<open>selectRandom on slices in a store\<close>

text \<open>
  A Go slice is a view of a backing array, and \<open>selectRandom\<close> both writes through its
  argument (the shuffle swaps in place) and returns a slice, so what the result shares with
  the argument is a question about the store. The store is the list of the backing arrays,
  an address being a position in it; a slice is \<open>nil\<close> or an array address with an offset
  and a length. \<open>append([]string(nil), xs...)\<close> returns \<open>nil\<close> when \<open>xs\<close> is empty and
  otherwise allocates a new array holding the elements of \<open>xs\<close>.
\<close>

type_synonym heap = "string list list"

datatype slice = NilSlice | Slice nat nat nat

fun slen :: "slice \<Rightarrow> nat" where
  "slen NilSlice = 0"
| "slen (Slice a off n) = n"

fun elems :: "heap \<Rightarrow> slice \<Rightarrow> string list" where
  "elems h NilSlice = []"
| "elems h (Slice a off n) = take n (drop off (h ! a))"

fun valid_slice :: "heap \<Rightarrow> slice \<Rightarrow> bool" where
  "valid_slice h NilSlice = True"
| "valid_slice h (Slice a off n) = (a < length h \<and> off + n \<le> length (h ! a))"

fun swap_st :: "heap \<Rightarrow> slice \<Rightarrow> nat \<Rightarrow> nat \<Rightarrow> heap" where
  "swap_st h NilSlice i j = h"
| "swap_st h (Slice a off n) i j =
     h[a := (h ! a)[off + i := (h ! a) ! (off + j), off + j := (h ! a) ! (off + i)]]"

fun Shuffle_st :: "(nat \<Rightarrow> nat) \<Rightarrow> nat \<Rightarrow> heap \<Rightarrow> slice \<Rightarrow> heap" where
  "Shuffle_st rng 0 h ids = h"
| "Shuffle_st rng (Suc i) h ids =
     Shuffle_st rng i (swap_st h ids (Suc i) (rng (Suc i) mod (Suc i + 1))) ids"

definition append_nil :: "heap \<Rightarrow> string list \<Rightarrow> heap \<times> slice" where
  "append_nil h xs =
     (if xs = [] then (h, NilSlice) else (h @ [xs], Slice (length h) 0 (length xs)))"

definition selectRandom_st ::
  "(nat \<Rightarrow> nat) \<Rightarrow> heap \<Rightarrow> slice \<Rightarrow> int \<Rightarrow> (heap \<times> slice) option" where
  "selectRandom_st rng h ids limit =
     (if int (slen ids) \<le> limit then Some (append_nil h (elems h ids))
      else
        let h' = Shuffle_st rng (slen ids - 1) h ids
        in if limit < 0 then None
           else Some (append_nil h' (take (nat limit) (elems h' ids))))"

section \<open>State store (package repository)\<close>

text \<open>
  The three tables of the schema. A table is the list of its rows, each row keyed by its
  primary key; the list order is the order in which a scan without \<open>ORDER BY\<close> returns the
  rows, which SQL leaves open, so nothing below depends on it. A statement either succeeds
  or violates a constraint; a lost connection (a failing \<open>Begin\<close>, \<open>Commit\<close> or
  query) is not part of the model.
\<close>

record user_row =
  username :: string
  team_name :: string
  is_active :: bool

record pr_row =
  pull_request_name :: string
  author_id :: string
  status :: PRStatus
  assigned_reviewers :: "string list"
  created_at :: time
  merged_at :: "time option"

record db =
  teams :: "string list"
  users :: "(string \<times> user_row) list"
  pull_requests :: "(string \<times> pr_row) list"

text \<open>
  The constraints of the schema: the primary keys of the three tables, and the foreign keys
  \<open>users.team_name \<rightarrow> teams\<close> and \<open>pull_requests.author_id \<rightarrow> users\<close>.
\<close>

definition schema_ok :: "db \<Rightarrow> bool" where
  "schema_ok d \<longleftrightarrow>
     distinct (teams d) \<and> distinct (map fst (users d)) \<and> distinct (map fst (pull_requests d))
     \<and> list_all (\<lambda>(uid, r). team_name r \<in> set (teams d)) (users d)
     \<and> list_all (\<lambda>(pid, p). map_of (users d) (author_id p) \<noteq> None) (pull_requests d)"

text \<open>The failures a statement of this model can end in, and \<open>handleError\<close> on them.\<close>

datatype pgerr = ErrNoRows | UniqueViolation | ForeignKeyViolation

fun handleError :: "pgerr \<Rightarrow> err" where
  "handleError ErrNoRows = RepoErrNotFound"
| "handleError UniqueViolation = RepoErrAlreadyExists"
| "handleError ForeignKeyViolation = RepoErrNotFound"

definition row_user :: "string \<times> user_row \<Rightarrow> User" where
  "row_user = (\<lambda>(uid, r).
     \<lparr>UserID = uid, Username = username r, TeamName = team_name r, IsActive = is_active r\<rparr>)"

definition row_pr :: "string \<times> pr_row \<Rightarrow> PullRequest" where
  "row_pr = (\<lambda>(pid, r).
     \<lparr>ID = pid, Name = pull_request_name r, AuthorID = author_id r, Status = status r,
      AssignedReviewers = assigned_reviewers r, CreatedAt = Some (created_at r),
      MergedAt = merged_at r\<rparr>)"

definition getUser :: "db \<Rightarrow> string \<Rightarrow> err + User" where
  "getUser d userID =
     (case map_of (users d) userID of
        None \<Rightarrow> Inl (handleError ErrNoRows)
      | Some r \<Rightarrow> Inr (row_user (userID, r)))"

text \<open>\<open>INSERT INTO teams (team_name) VALUES ($1)\<close>\<close>

definition insert_team :: "db \<Rightarrow> string \<Rightarrow> pgerr + db" where
  "insert_team d name =
     (if name \<in> set (teams d) then Inl UniqueViolation
      else Inr (d\<lparr>teams := teams d @ [name]\<rparr>))"

text \<open>
  \<open>INSERT INTO users ... ON CONFLICT (user_id) DO UPDATE SET username, is_active, team_name\<close>:
  a new row, or the existing row of that \<open>user_id\<close> overwritten in all three columns.
\<close>

definition upsert_user :: "db \<Rightarrow> string \<Rightarrow> string \<Rightarrow> string \<Rightarrow> bool \<Rightarrow> pgerr + db" where
  "upsert_user d uid uname team active =
     (if team \<notin> set (teams d) then Inl ForeignKeyViolation
      else Inr (d\<lparr>users :=
             AList.update uid \<lparr>username = uname, team_name = team, is_active = active\<rparr>
               (users d)\<rparr>))"

text \<open>The batch of \<open>CreateTeamTx\<close>: one upsert per member, in order, up to the first failure.\<close>

fun SendBatch :: "db \<Rightarrow> string \<Rightarrow> TeamMember list \<Rightarrow> pgerr + db" where
  "SendBatch d team [] = Inr d"
| "SendBatch d team (m # ms) =
     (case upsert_user d (tmUserID m) (tmUsername m) team (tmIsActive m) of
        Inl e \<Rightarrow> Inl e
      | Inr d' \<Rightarrow> SendBatch d' team ms)"

text \<open>
  \<open>CreateTeamTx\<close>: any error return leaves the transaction to the deferred rollback, so the
  store is the one before the call.
\<close>

definition CreateTeamTx :: "db \<Rightarrow> Team \<Rightarrow> db \<times> (err + unit)" where
  "CreateTeamTx d team =
     (case insert_team d (tTeamName team) of
        Inl e \<Rightarrow> (d, Inl (handleError e))
      | Inr d1 \<Rightarrow>
          if length (Members team) > 0 then
            (case SendBatch d1 (tTeamName team) (Members team) of
               Inl e \<Rightarrow> (d, Inl (handleError e))
             | Inr d2 \<Rightarrow> (d2, Inr ()))
          else (d1, Inr ()))"

text \<open>
  \<open>GetTeam\<close> of the repository: the members are ordered by \<open>user_id\<close> (here: bytewise).
  The repository methods that share their name with a service method carry the suffix
  \<open>_repo\<close>.
\<close>

definition GetTeam_repo :: "db \<Rightarrow> string \<Rightarrow> err + Team" where
  "GetTeam_repo d teamName =
     (if teamName \<notin> set (teams d) then Inl RepoErrNotFound
      else Inr \<lparr>tTeamName = teamName,
                Members = sort_key tmUserID
                  (map (\<lambda>(uid, r). \<lparr>tmUserID = uid, tmUsername = username r, tmIsActive = is_active r\<rparr>)
                     (filter (\<lambda>(uid, r). team_name r = teamName) (users d)))\<rparr>)"

text \<open>\<open>UPDATE users SET is_active = $2 WHERE user_id = $1 RETURNING ...\<close>\<close>

definition SetUserActiveStatus_repo :: "db \<Rightarrow> string \<Rightarrow> bool \<Rightarrow> db \<times> (err + User)" where
  "SetUserActiveStatus_repo d userID isActive =
     (case map_of (users d) userID of
        None \<Rightarrow> (d, Inl (handleError ErrNoRows))
      | Some r \<Rightarrow>
          (d\<lparr>users := AList.update userID (r\<lparr>is_active := isActive\<rparr>) (users d)\<rparr>,
           Inr (row_user (userID, r\<lparr>is_active := isActive\<rparr>))))"

definition GetUserByID :: "db \<Rightarrow> string \<Rightarrow> err + User" where
  "GetUserByID d userID = getUser d userID"

text \<open>\<open>SELECT ... FROM users WHERE team_name = $1\<close>\<close>

definition ListTeamMembers :: "db \<Rightarrow> string \<Rightarrow> err + User list" where
  "ListTeamMembers d teamName =
     Inr (map row_user (filter (\<lambda>(uid, r). team_name r = teamName) (users d)))"

text \<open>
  \<open>enc\<close> is the instant a \<open>TIMESTAMPTZ\<close> column holds after a Go \<open>time.Time\<close> is written to
  it (the column has a coarser resolution than the Go clock); it belongs to the driver and the
  database and is a parameter here. \<open>dbnow\<close> is the database's \<open>NOW()\<close>.

  \<open>CreatePR\<close>: the \<open>INSERT\<close> fails on an existing \<open>pull_request_id\<close> and on an \<open>author_id\<close>
  without a user row; otherwise the row is stored and \<open>created_at\<close> is read back into \<open>pr\<close>.
\<close>

definition CreatePR ::
  "(time \<Rightarrow> time) \<Rightarrow> time \<Rightarrow> db \<Rightarrow> PullRequest \<Rightarrow> db \<times> (err + PullRequest)" where
  "CreatePR enc dbnow d pr =
     (if map_of (pull_requests d) (ID pr) \<noteq> None then (d, Inl (handleError UniqueViolation))
      else if map_of (users d) (AuthorID pr) = None then (d, Inl (handleError ForeignKeyViolation))
      else
        (d\<lparr>pull_requests := pull_requests d @
              [(ID pr, \<lparr>pull_request_name = Name pr, author_id = AuthorID pr, status = Status pr,
                        assigned_reviewers = AssignedReviewers pr, created_at = dbnow,
                        merged_at = map_option enc (MergedAt pr)\<rparr>)]\<rparr>,
         Inr (pr\<lparr>CreatedAt := Some dbnow\<rparr>)))"

text \<open>
  \<open>fetchPR\<close>: \<open>forUpdate\<close> adds \<open>FOR UPDATE\<close>, a row lock, which changes nothing in a
  sequential run.
\<close>

definition fetchPR :: "db \<Rightarrow> string \<Rightarrow> bool \<Rightarrow> err + PullRequest" where
  "fetchPR d prID forUpdate =
     (case map_of (pull_requests d) prID of
        None \<Rightarrow> Inl (handleError ErrNoRows)
      | Some r \<Rightarrow> Inr (row_pr (prID, r)))"

definition GetPRByID :: "db \<Rightarrow> string \<Rightarrow> err + PullRequest" where
  "GetPRByID d prID = fetchPR d prID False"

definition GetPRByIDForUpdate :: "db \<Rightarrow> string \<Rightarrow> err + PullRequest" where
  "GetPRByIDForUpdate d prID = fetchPR d prID True"

text \<open>
  \<open>UPDATE pull_requests SET status = $2, assigned_reviewers = $3, merged_at = $4
  WHERE pull_request_id = $1 RETURNING ...\<close>: the other columns keep their values, and the
  row that is returned is the stored one.
\<close>

definition UpdatePR :: "(time \<Rightarrow> time) \<Rightarrow> db \<Rightarrow> PullRequest \<Rightarrow> db \<times> (err + PullRequest)" where
  "UpdatePR enc d pr =
     (case map_of (pull_requests d) (ID pr) of
        None \<Rightarrow> (d, Inl (handleError ErrNoRows))
      | Some r \<Rightarrow>
          (let r' = r\<lparr>status := Status pr, assigned_reviewers := AssignedReviewers pr,
                       merged_at := map_option enc (MergedAt pr)\<rparr>
           in (d\<lparr>pull_requests := AList.update (ID pr) r' (pull_requests d)\<rparr>,
               Inr (row_pr (ID pr, r')))))"

text \<open>
  \<open>GetPRsByReviewer\<close>: the rows whose reviewer array contains the user, newest first (rows
  of equal \<open>created_at\<close> in table order).
\<close>

definition GetPRsByReviewer :: "db \<Rightarrow> string \<Rightarrow> err + PullRequestShort list" where
  "GetPRsByReviewer d userID =
     Inr (map (\<lambda>(pid, r). \<lparr>sID = pid, sName = pull_request_name r, sAuthorID = author_id r,
                            sStatus = status r\<rparr>)
           (sort_key (\<lambda>(pid, r). - created_at r)
              (filter (\<lambda>(pid, r). userID \<in> set (assigned_reviewers r)) (pull_requests d))))"

text \<open>
  \<open>WithTransaction\<close>: \<open>fn\<close> runs on the transaction's view of the store; an error rolls
  every write of \<open>fn\<close> back, success commits them. The values \<open>fn\<close> leaves in the variables it
  captured are its \<open>Inr\<close> result.
\<close>

definition WithTransaction :: "db \<Rightarrow> (db \<Rightarrow> db \<times> (err + 'a)) \<Rightarrow> db \<times> (err + 'a)" where
  "WithTransaction d fn =
     (case fn d of
        (d', Inl e) \<Rightarrow> (d, Inl e)
      | (d', Inr v) \<Rightarrow> (d', Inr v))"

section \<open>Assignment engine (package service)\<close>

definition mapError :: "err \<Rightarrow> err" where
  "mapError e =
     (if e = ErrPRMerged \<or> e = ErrNotAssigned \<or> e = ErrNoCandidate then e
      else if e = RepoErrNotFound then ErrNotFound
      else e)"

definition CreateTeam :: "db \<Rightarrow> Team \<Rightarrow> db \<times> (err + unit)" where
  "CreateTeam d team =
     (case CreateTeamTx d team of
        (d', Inl e) \<Rightarrow>
          if e = RepoErrAlreadyExists then (d', Inl ErrTeamExists) else (d', Inl (mapError e))
      | (d', Inr u) \<Rightarrow> (d', Inr u))"

definition GetTeam :: "db \<Rightarrow> string \<Rightarrow> err + Team" where
  "GetTeam d teamName = map_sum mapError id (GetTeam_repo d teamName)"

definition SetUserActiveStatus :: "db \<Rightarrow> string \<Rightarrow> bool \<Rightarrow> db \<times> (err + User)" where
  "SetUserActiveStatus d userID isActive =
     (case SetUserActiveStatus_repo d userID isActive of
        (d', r) \<Rightarrow> (d', map_sum mapError id r))"

definition GetUserReviewPRs :: "db \<Rightarrow> string \<Rightarrow> err + PullRequestShort list" where
  "GetUserReviewPRs d userID = map_sum mapError id (GetPRsByReviewer d userID)"

definition CreatePullRequest ::
  "(time \<Rightarrow> time) \<Rightarrow> (nat \<Rightarrow> nat) \<Rightarrow> time \<Rightarrow> db \<Rightarrow> string \<Rightarrow> string \<Rightarrow> string
     \<Rightarrow> db \<times> (err + PullRequest)" where
  "CreatePullRequest enc rng dbnow d prID prName authorID =
     (let pr = \<lparr>ID = prID, Name = prName, AuthorID = authorID, Status = PROpen,
                AssignedReviewers = [], CreatedAt = None, MergedAt = None\<rparr>
      in case WithTransaction d (\<lambda>tx.
              case GetUserByID tx authorID of
                Inl e \<Rightarrow> (tx, Inl e)
              | Inr author \<Rightarrow>
                 (case ListTeamMembers tx (TeamName author) of
                    Inl e \<Rightarrow> (tx, Inl e)
                  | Inr teamMembers \<Rightarrow>
                     (let candidates = activeReviewers teamMembers authorID []
                      in case selectRandom rng candidates 2 of
                           None \<Rightarrow> (tx, Inl Panic)
                         | Some reviewers \<Rightarrow>
                             CreatePR enc dbnow tx (pr\<lparr>AssignedReviewers := reviewers\<rparr>))))
         of
           (d', Inl e) \<Rightarrow>
             if e = RepoErrAlreadyExists then (d', Inl ErrPRExists) else (d', Inl (mapError e))
         | (d', Inr pr') \<Rightarrow> (d', Inr pr'))"

text \<open>\<open>now\<close> is the service's clock, \<open>time.Now()\<close>.\<close>

definition MergePullRequest ::
  "(time \<Rightarrow> time) \<Rightarrow> time \<Rightarrow> db \<Rightarrow> string \<Rightarrow> db \<times> (err + PullRequest)" where
  "MergePullRequest enc now d prID =
     (case WithTransaction d (\<lambda>tx.
             case GetPRByIDForUpdate tx prID of
               Inl e \<Rightarrow> (tx, Inl e)
             | Inr current \<Rightarrow>
                 if Status current = PRMerged then (tx, Inr current)
                 else UpdatePR enc tx (current\<lparr>Status := PRMerged, MergedAt := Some now\<rparr>))
      of
        (d', Inl e) \<Rightarrow> (d', Inl (mapError e))
      | (d', Inr result) \<Rightarrow> (d', Inr result))"

definition activeReviewersFromTeam ::
  "db \<Rightarrow> string \<Rightarrow> string \<Rightarrow> string \<Rightarrow> string list \<Rightarrow> err + string list" where
  "activeReviewersFromTeam tx teamName authorID oldUserID currentReviewers =
     (case ListTeamMembers tx teamName of
        Inl e \<Rightarrow> Inl e
      | Inr members \<Rightarrow> Inr (activeReviewers members authorID (currentReviewers @ [oldUserID])))"

text \<open>The loop that overwrites the first entry equal to \<open>oldUserID\<close> and breaks.\<close>

fun replaceFirst :: "string list \<Rightarrow> string \<Rightarrow> string \<Rightarrow> string list" where
  "replaceFirst [] oldUserID replacedBy = []"
| "replaceFirst (r # rs) oldUserID replacedBy =
     (if r = oldUserID then replacedBy # rs else r # replaceFirst rs oldUserID replacedBy)"

definition ReassignReviewer ::
  "(time \<Rightarrow> time) \<Rightarrow> (nat \<Rightarrow> nat) \<Rightarrow> db \<Rightarrow> string \<Rightarrow> string
     \<Rightarrow> db \<times> (err + PullRequest \<times> string)" where
  "ReassignReviewer enc rng d prID oldUserID =
     (case WithTransaction d (\<lambda>tx.
             case GetPRByIDForUpdate tx prID of
               Inl e \<Rightarrow> (tx, Inl e)
             | Inr current \<Rightarrow>
                 if Status current = PRMerged then (tx, Inl ErrPRMerged)
                 else
                   (case GetUserByID tx oldUserID of
                      Inl e \<Rightarrow> (tx, Inl e)
                    | Inr oldUser \<Rightarrow>
                        if \<not> isReviewerAssigned (AssignedReviewers current) oldUserID
                        then (tx, Inl ErrNotAssigned)
                        else
                          (case activeReviewersFromTeam tx (TeamName oldUser) (AuthorID current)
                                  oldUserID (AssignedReviewers current) of
                             Inl e \<Rightarrow> (tx, Inl e)
                           | Inr candidates \<Rightarrow>
                              (case selectRandom rng candidates 1 of
                                 None \<Rightarrow> (tx, Inl Panic)
                               | Some reviewers \<Rightarrow>
                                  (case reviewers of
                                     [] \<Rightarrow> (tx, Inl ErrNoCandidate)
                                   | replacedBy # _ \<Rightarrow>
                                      (case UpdatePR enc tx
                                              (current\<lparr>AssignedReviewers :=
                                                 replaceFirst (AssignedReviewers current)
                                                   oldUserID replacedBy\<rparr>) of
                                         (tx', Inl e) \<Rightarrow> (tx', Inl e)
                                       | (tx', Inr updated) \<Rightarrow>
                                           (tx', Inr (updated, replacedBy))))))))
      of
        (d', Inl e) \<Rightarrow> (d', Inl (mapError e))
      | (d', Inr res) \<Rightarrow> (d', Inr res))"

subsection \<open>The public API as a transition system\<close>

text \<open>
  One call of the service, with what it takes from outside the store: the random source of
  the shuffle, the database clock and the service clock.
\<close>

datatype call =
    CallCreateTeam Team
  | CallGetTeam string
  | CallSetUserActiveStatus string bool
  | CallGetUserReviewPRs string
  | CallCreatePullRequest "nat \<Rightarrow> nat" time string string string
  | CallMergePullRequest time string
  | CallReassignReviewer "nat \<Rightarrow> nat" string string

fun step :: "(time \<Rightarrow> time) \<Rightarrow> db \<Rightarrow> call \<Rightarrow> db" where
  "step enc d (CallCreateTeam team) = fst (CreateTeam d team)"
| "step enc d (CallGetTeam teamName) = d"
| "step enc d (CallSetUserActiveStatus userID isActive) =
     fst (SetUserActiveStatus d userID isActive)"
| "step enc d (CallGetUserReviewPRs userID) = d"
| "step enc d (CallCreatePullRequest rng dbnow prID prName authorID) =
     fst (CreatePullRequest enc rng dbnow d prID prName authorID)"
| "step enc d (CallMergePullRequest now prID) = fst (MergePullRequest enc now d prID)"
| "step enc d (CallReassignReviewer rng prID oldUserID) =
     fst (ReassignReviewer enc rng d prID oldUserID)"

definition run :: "(time \<Rightarrow> time) \<Rightarrow> db \<Rightarrow> call list \<Rightarrow> db" where
  "run enc d cs = foldl (step enc) d cs"

definition empty_db :: db where
  "empty_db = \<lparr>teams = [], users = [], pull_requests = []\<rparr>"

section \<open>Vocabulary of the properties\<close>

text \<open>
  The users of the store that belong to team \<open>team\<close>, are active and are not in \<open>excluded\<close>,
  read off the \<open>users\<close> table by key.
\<close>

definition eligible :: "db \<Rightarrow> string \<Rightarrow> string set \<Rightarrow> string set" where
  "eligible d team excluded =
     {uid \<in> fst ` set (users d).
        (case map_of (users d) uid of
           Some r \<Rightarrow> team_name r = team \<and> is_active r
         | None \<Rightarrow> False)
        \<and> uid \<notin> excluded}"

text \<open>
  The draws a shuffle of \<open>n\<close> elements can make: one number in \<open>[0, i]\<close> for each round
  \<open>i = 1, \<dots>, n - 1\<close>. A generator whose draws are independent and uniform picks each of
  these vectors with the same probability.
\<close>

definition draws :: "nat \<Rightarrow> (nat \<Rightarrow> nat) set" where
  "draws n = PiE {1..<n} (\<lambda>i. {..i})"

text \<open>
  The invariant of the stores the service produces: the schema's constraints, and for every
  pull request that its reviewers are at most two users of the store, pairwise distinct and
  different from the author, and that it carries a merge timestamp exactly when it is MERGED.
\<close>

definition pr_ok :: "db \<Rightarrow> pr_row \<Rightarrow> bool" where
  "pr_ok d p \<longleftrightarrow>
     distinct (assigned_reviewers p)
     \<and> author_id p \<notin> set (assigned_reviewers p)
     \<and> length (assigned_reviewers p) \<le> 2
     \<and> list_all (\<lambda>u. map_of (users d) u \<noteq> None) (assigned_reviewers p)
     \<and> (status p = PRMerged \<longleftrightarrow> merged_at p \<noteq> None)"

definition store_inv :: "db \<Rightarrow> bool" where
  "store_inv d \<longleftrightarrow> schema_ok d \<and> list_all (\<lambda>(pid, p). pr_ok d p) (pull_requests d)"

section \<open>Example stores\<close>

text \<open>
  The fixtures of the service tests: team \<open>backend\<close> with the active members \<open>u1\<close>, \<open>u2\<close>,
  \<open>u3\<close>, a pull request \<open>pr1\<close> of \<open>u1\<close> reviewed by \<open>u2\<close>, and the same pull request merged.
\<close>

definition backend :: Team where
  "backend = \<lparr>tTeamName = ''backend'', Members =
     [\<lparr>tmUserID = ''u1'', tmUsername = ''user0'', tmIsActive = True\<rparr>,
      \<lparr>tmUserID = ''u2'', tmUsername = ''user1'', tmIsActive = True\<rparr>,
      \<lparr>tmUserID = ''u3'', tmUsername = ''user2'', tmIsActive = True\<rparr>]\<rparr>"

definition backend_users :: "(string \<times> user_row) list" where
  "backend_users =
     [(''u1'', \<lparr>username = ''user0'', team_name = ''backend'', is_active = True\<rparr>),
      (''u2'', \<lparr>username = ''user1'', team_name = ''backend'', is_active = True\<rparr>),
      (''u3'', \<lparr>username = ''user2'', team_name = ''backend'', is_active = True\<rparr>)]"

definition db_backend :: db where
  "db_backend = \<lparr>teams = [''backend''], users = backend_users, pull_requests = []\<rparr>"

definition pr1_open :: pr_row where
  "pr1_open = \<lparr>pull_request_name = ''feat'', author_id = ''u1'', status = PROpen,
                assigned_reviewers = [''u2''], created_at = 100, merged_at = None\<rparr>"

definition pr1_merged :: pr_row where
  "pr1_merged = \<lparr>pull_request_name = ''feat'', author_id = ''u1'', status = PRMerged,
                  assigned_reviewers = [''u2''], created_at = 100, merged_at = Some 200\<rparr>"

definition db_open :: db where
  "db_open = \<lparr>teams = [''backend''], users = backend_users,
               pull_requests = [(''pr1'', pr1_open)]\<rparr>"

definition db_merged :: db where
  "db_merged = \<lparr>teams = [''backend''], users = backend_users,
                 pull_requests = [(''pr1'', pr1_merged)]\<rparr>"

text \<open>Team \<open>small\<close> with the author and one more active member, and with the author alone.\<close>

definition db_small :: db where
  "db_small = \<lparr>teams = [''small''],
     users = [(''u1'', \<lparr>username = ''user0'', team_name = ''small'', is_active = True\<rparr>),
              (''u2'', \<lparr>username = ''user1'', team_name = ''small'', is_active = True\<rparr>)],
     pull_requests = []\<rparr>"

definition db_solo :: db where
  "db_solo = \<lparr>teams = [''small''],
     users = [(''u1'', \<lparr>username = ''user0'', team_name = ''small'', is_active = True\<rparr>)],
     pull_requests = []\<rparr>"

definition db_small_open :: db where
  "db_small_open = \<lparr>teams = [''small''],
     users = [(''u1'', \<lparr>username = ''user0'', team_name = ''small'', is_active = True\<rparr>),
              (''u2'', \<lparr>username = ''user1'', team_name = ''small'', is_active = True\<rparr>)],
     pull_requests = [(''pr1'', pr1_open)]\<rparr>"

text \<open>A second team whose member list names \<open>u1\<close>, a user of team \<open>backend\<close>.\<close>

definition platform :: Team where
  "platform = \<lparr>tTeamName = ''platform'', Members =
     [\<lparr>tmUserID = ''u1'', tmUsername = ''user0'', tmIsActive = True\<rparr>]\<rparr>"

section \<open>Properties of the selector\<close>

lemma excludeSet_eq: "excludeSet authorID exclude = insert authorID (set exclude)"
proof -
  have "foldl (\<lambda>s i. insert i s) S xs = S \<union> set xs" for S :: "string set" and xs
    by (induction xs arbitrary: S) auto
  then show ?thesis by (simp add: excludeSet_def)
qed

lemma activeReviewers_loop_eq:
  "activeReviewers_loop ex us acc =
     acc @ map UserID (filter (\<lambda>u. IsActive u \<and> UserID u \<notin> ex) us)"
  by (induction us arbitrary: acc) auto

lemma mset_swap_ids:
  "i < length ids \<Longrightarrow> j < length ids \<Longrightarrow> mset (swap ids i j) = mset ids"
  unfolding swap_def by (simp add: mset_swap)

lemma length_swap [simp]: "length (swap ids i j) = length ids"
  by (simp add: swap_def)

lemma length_Shuffle [simp]: "length (Shuffle rng i ids) = length ids"
  by (induction i arbitrary: ids) auto

lemma mset_take_subset: "mset (take n xs) \<subseteq># mset xs"
proof -
  have "mset xs = mset (take n xs) + mset (drop n xs)"
    by (metis append_take_drop_id mset_append)
  then show ?thesis by simp
qed

lemma activeReviewers_eq:
  "activeReviewers members authorID exclude =
     map UserID
       (filter (\<lambda>u. IsActive u \<and> UserID u \<noteq> authorID \<and> UserID u \<notin> set exclude) members)"
proof -
  have "(\<lambda>u. IsActive u \<and> UserID u \<notin> insert authorID (set exclude)) =
        (\<lambda>u. IsActive u \<and> UserID u \<noteq> authorID \<and> UserID u \<notin> set exclude)"
    by auto
  then show ?thesis
    by (simp add: activeReviewers_def activeReviewers_loop_eq excludeSet_eq)
qed

lemma mset_Shuffle: "i < length ids \<Longrightarrow> mset (Shuffle rng i ids) = mset ids"
proof (induction i arbitrary: ids)
  case 0
  then show ?case by simp
next
  case (Suc i)
  have "rng (Suc i) mod (Suc i + 1) < Suc i + 1"
    by (rule mod_less_divisor) simp
  then have j: "rng (Suc i) mod (Suc i + 1) < length ids"
    using Suc.prems by linarith
  have "mset (swap ids (Suc i) (rng (Suc i) mod (Suc i + 1))) = mset ids"
    using Suc.prems j by (rule mset_swap_ids)
  moreover have "i < length (swap ids (Suc i) (rng (Suc i) mod (Suc i + 1)))"
    using Suc.prems by simp
  ultimately show ?case
    using Suc.IH by simp
qed

lemma distinct_of_submset:
  assumes "mset ys \<subseteq># mset xs" and "distinct xs"
  shows "distinct ys"
proof -
  have le: "count (mset ys) a \<le> 1" for a
  proof -
    have "count (mset ys) a \<le> count (mset xs) a"
      using assms(1) by (rule mset_subset_eq_count)
    also have "\<dots> \<le> 1"
      using assms(2) by (simp add: distinct_count_atmost_1)
    finally show ?thesis .
  qed
  have "count (mset ys) a = (if a \<in> set ys then 1 else 0)" for a
  proof (cases "a \<in> set ys")
    case True
    then have "0 < count (mset ys) a" by simp
    with le [of a] have "count (mset ys) a = 1" by linarith
    with True show ?thesis by simp
  next
    case False
    then show ?thesis by simp
  qed
  then show ?thesis
    by (simp add: distinct_count_atmost_1)
qed

lemma selectRandom_nonneg:
  assumes "0 \<le> limit"
  shows "\<exists>ys. selectRandom rng ids limit = Some ys
           \<and> length ys = min (nat limit) (length ids)
           \<and> mset ys \<subseteq># mset ids"
proof (cases "int (length ids) \<le> limit")
  case True
  then have "min (nat limit) (length ids) = length ids" by linarith
  with True show ?thesis by (simp add: selectRandom_def)
next
  case False
  have "mset (Shuffle rng (length ids - 1) ids) = mset ids"
    by (cases ids) (simp_all add: mset_Shuffle)
  then have "mset (take (nat limit) (Shuffle rng (length ids - 1) ids)) \<subseteq># mset ids"
    using mset_take_subset [of "nat limit" "Shuffle rng (length ids - 1) ids"]
    by simp
  moreover have "min (length ids) (nat limit) = min (nat limit) (length ids)" by simp
  ultimately show ?thesis using False assms by (simp add: selectRandom_def Let_def)
qed

section \<open>The shuffle is a bijection from draws to arrangements\<close>

lemma distinct_swap: "i < length ids \<Longrightarrow> j < length ids \<Longrightarrow> distinct ids \<Longrightarrow> distinct (swap ids i j)"
  using mset_swap_ids [of i ids j] by (metis distinct_count_atmost_1 mset_eq_setD set_mset_mset)

lemma Shuffle_above: "i < m \<Longrightarrow> m < length ids \<Longrightarrow> Shuffle rng i ids ! m = ids ! m"
proof (induction i arbitrary: ids)
  case 0
  then show ?case by simp
next
  case (Suc i)
  let ?j = "rng (Suc i) mod (Suc i + 1)"
  have "?j < Suc i + 1"
    by (rule mod_less_divisor) simp
  with Suc.prems have "?j \<noteq> m" "Suc i \<noteq> m"
    by linarith+
  then have "swap ids (Suc i) ?j ! m = ids ! m"
    by (simp add: swap_def)
  moreover have "Shuffle rng i (swap ids (Suc i) ?j) ! m = swap ids (Suc i) ?j ! m"
    using Suc.prems by (intro Suc.IH) simp_all
  ultimately show ?case by simp
qed

lemma Shuffle_inj:
  assumes "distinct ids" and "i < length ids"
    and "\<And>m. 1 \<le> m \<Longrightarrow> m \<le> i \<Longrightarrow> f m \<le> m"
    and "\<And>m. 1 \<le> m \<Longrightarrow> m \<le> i \<Longrightarrow> g m \<le> m"
    and "Shuffle f i ids = Shuffle g i ids"
    and "1 \<le> m" and "m \<le> i"
  shows "f m = g m"
  using assms
proof (induction i arbitrary: ids)
  case 0
  then show ?case by simp
next
  case (Suc i)
  have fi: "f (Suc i) \<le> Suc i" and gi: "g (Suc i) \<le> Suc i"
    using Suc.prems(3,4) by simp_all
  then have fm: "f (Suc i) mod (Suc i + 1) = f (Suc i)" and gm: "g (Suc i) mod (Suc i + 1) = g (Suc i)"
    by simp_all
  let ?xf = "swap ids (Suc i) (f (Suc i))" and ?xg = "swap ids (Suc i) (g (Suc i))"
  have eq: "Shuffle f i ?xf = Shuffle g i ?xg"
    using Suc.prems(5) fm gm by simp
  have "Shuffle f i ?xf ! Suc i = ?xf ! Suc i"
    using Suc.prems(2) by (intro Shuffle_above) simp_all
  moreover have "Shuffle g i ?xg ! Suc i = ?xg ! Suc i"
    using Suc.prems(2) by (intro Shuffle_above) simp_all
  ultimately have "?xf ! Suc i = ?xg ! Suc i"
    using eq by simp
  moreover have "?xf ! Suc i = ids ! f (Suc i)"
    using Suc.prems(2) fi by (auto simp: swap_def nth_list_update)
  moreover have "?xg ! Suc i = ids ! g (Suc i)"
    using Suc.prems(2) gi by (auto simp: swap_def nth_list_update)
  ultimately have "ids ! f (Suc i) = ids ! g (Suc i)"
    by simp
  then have top: "f (Suc i) = g (Suc i)"
    using Suc.prems(1,2) fi gi by (simp add: nth_eq_iff_index_eq)
  show ?case
  proof (cases "m = Suc i")
    case True
    with top show ?thesis by simp
  next
    case False
    with Suc.prems(7) have mi: "m \<le> i" by simp
    have "distinct ?xf"
      using Suc.prems(1,2) fi by (intro distinct_swap) simp_all
    moreover have "i < length ?xf"
      using Suc.prems(2) by simp
    moreover have "Shuffle f i ?xf = Shuffle g i ?xf"
      using eq top by simp
    ultimately show ?thesis
      using Suc.prems(3,4,6) mi by (intro Suc.IH [of ?xf]) simp_all
  qed
qed

lemma mset_Shuffle_all: "mset (Shuffle rng (length ids - 1) ids) = mset ids"
  by (cases ids) (simp_all add: mset_Shuffle)

lemma card_draws: "card (draws n) = fact n"
proof -
  have "(\<Prod>i\<in>{1..<n}. card {..i}) = fact n"
  proof (induction n)
    case 0
    then show ?case by simp
  next
    case (Suc n)
    show ?case
    proof (cases "n = 0")
      case True
      then show ?thesis by simp
    next
      case False
      then have "1 \<le> n" by simp
      then have "(\<Prod>i\<in>{1..<Suc n}. card {..i}) = (\<Prod>i\<in>{1..<n}. card {..i}) * card {..n}"
        by (rule prod.atLeastLessThan_Suc)
      with Suc.IH show ?thesis by (simp add: mult.commute)
    qed
  qed
  then show ?thesis
    by (simp add: draws_def card_PiE)
qed

lemma draws_bound: "f \<in> draws n \<Longrightarrow> 1 \<le> m \<Longrightarrow> m \<le> n - 1 \<Longrightarrow> f m \<le> m"
  by (auto simp: draws_def PiE_def Pi_def)

lemma card_arrangements:
  assumes "finite A"
  shows "card {xs. length xs = card A \<and> distinct xs \<and> set xs \<subseteq> A} = fact (card A)"
proof -
  have "card {xs. length xs = card A \<and> distinct xs \<and> set xs \<subseteq> A} = \<Prod>{card A - card A + 1 .. card A}"
    using assms by (intro card_lists_distinct_length_eq) simp_all
  then show ?thesis
    by (simp add: fact_prod)
qed

lemma finite_arrangements:
  "finite A \<Longrightarrow> finite {xs. length xs = n \<and> distinct xs \<and> set xs \<subseteq> A}"
  by (rule finite_subset [OF _ finite_lists_length_eq [of A n]]) auto

lemma Shuffle_bij:
  assumes "distinct ids"
  shows "bij_betw (\<lambda>f. Shuffle f (length ids - 1) ids) (draws (length ids))
           {xs. length xs = length ids \<and> distinct xs \<and> set xs \<subseteq> set ids}"
proof -
  let ?n = "length ids"
  let ?F = "\<lambda>f. Shuffle f (?n - 1) ids"
  let ?P = "{xs. length xs = ?n \<and> distinct xs \<and> set xs \<subseteq> set ids}"
  have cardA: "card (set ids) = ?n"
    using assms by (rule distinct_card)
  have inj: "inj_on ?F (draws ?n)"
  proof (rule inj_onI)
    fix f g
    assume f: "f \<in> draws ?n" and g: "g \<in> draws ?n" and eq: "?F f = ?F g"
    show "f = g"
    proof (cases ids)
      case Nil
      with f g show ?thesis by (simp add: draws_def)
    next
      case (Cons a as)
      then have lt: "?n - 1 < ?n" by simp
      have "f m = g m" if "m \<in> {1..<?n}" for m
      proof -
        from that have m: "1 \<le> m" "m \<le> ?n - 1" by auto
        show ?thesis
          by (rule Shuffle_inj [OF assms lt _ _ eq m])
            (use f g in \<open>auto intro: draws_bound\<close>)
      qed
      with f g show ?thesis
        unfolding draws_def by (intro PiE_ext [of f _ _ g]) auto
    qed
  qed
  have sub: "?F ` draws ?n \<subseteq> ?P"
  proof
    fix xs
    assume "xs \<in> ?F ` draws ?n"
    then obtain f where "xs = ?F f" by blast
    then have m: "mset xs = mset ids"
      using mset_Shuffle_all [of f ids] by simp
    then have "distinct xs" "set xs = set ids" "length xs = ?n"
      using assms by (metis mset_eq_imp_distinct_iff, metis mset_eq_setD, metis mset_eq_length)
    then show "xs \<in> ?P" by simp
  qed
  have "card (?F ` draws ?n) = fact ?n"
    using inj by (simp add: card_image card_draws)
  moreover have "card ?P = fact ?n"
    using card_arrangements [of "set ids"] cardA by simp
  moreover have "finite ?P"
    by (rule finite_arrangements) simp
  ultimately have "?F ` draws ?n = ?P"
    using sub by (intro card_subset_eq) simp_all
  with inj show ?thesis
    by (simp add: bij_betw_def)
qed

lemma card_arrangements_prefix:
  assumes "distinct ids" and "distinct ys" and "set ys \<subseteq> set ids"
  shows "card {xs. length xs = length ids \<and> distinct xs \<and> set xs \<subseteq> set ids
                \<and> take (length ys) xs = ys} = fact (length ids - length ys)"
proof -
  let ?n = "length ids" and ?k = "length ys"
  let ?A = "set ids - set ys"
  let ?Z = "{zs. length zs = card ?A \<and> distinct zs \<and> set zs \<subseteq> ?A}"
  let ?P = "{xs. length xs = ?n \<and> distinct xs \<and> set xs \<subseteq> set ids \<and> take ?k xs = ys}"
  have "card ?A = card (set ids) - card (set ys)"
    using assms(3) by (intro card_Diff_subset) simp_all
  then have cA: "card ?A = ?n - ?k"
    using assms(1,2) by (simp add: distinct_card)
  have "?k = card (set ys)"
    using assms(2) by (simp add: distinct_card)
  also have "\<dots> \<le> card (set ids)"
    using assms(3) by (intro card_mono) simp_all
  finally have kn: "?k \<le> ?n"
    using assms(1) by (simp add: distinct_card)
  have img: "(\<lambda>zs. ys @ zs) ` ?Z = ?P"
  proof (intro set_eqI iffI)
    fix xs
    assume "xs \<in> (\<lambda>zs. ys @ zs) ` ?Z"
    then obtain zs where zs: "xs = ys @ zs" "length zs = card ?A" "distinct zs" "set zs \<subseteq> ?A"
      by blast
    with assms(2,3) cA kn show "xs \<in> ?P"
      by auto
  next
    fix xs
    assume "xs \<in> ?P"
    then have xs: "length xs = ?n" "distinct xs" "set xs \<subseteq> set ids" "take ?k xs = ys"
      by simp_all
    let ?zs = "drop ?k xs"
    have split: "xs = ys @ ?zs"
      using xs(4) by (metis append_take_drop_id)
    with xs(2) have dz: "distinct ?zs" and disj: "set ys \<inter> set ?zs = {}"
      by (metis distinct_append)+
    have "set ?zs \<subseteq> set xs"
      by (rule set_drop_subset)
    with xs(3) disj have "set ?zs \<subseteq> ?A"
      by auto
    moreover have "length ?zs = card ?A"
      using xs(1) cA by simp
    ultimately have "?zs \<in> ?Z"
      using dz by simp
    with split show "xs \<in> (\<lambda>zs. ys @ zs) ` ?Z"
      by blast
  qed
  have "inj_on (\<lambda>zs. ys @ zs) ?Z"
    by (rule inj_onI) simp
  then have "card ?P = card ?Z"
    using img card_image by fastforce
  also have "\<dots> = fact (card ?A)"
    by (rule card_arrangements) simp
  finally show ?thesis
    using cA by simp
qed

lemma Shuffle_uniform:
  assumes "distinct ids" and "distinct ys" and "set ys \<subseteq> set ids"
  shows "card {f \<in> draws (length ids). take (length ys) (Shuffle f (length ids - 1) ids) = ys} =
           fact (length ids - length ys)"
proof -
  let ?n = "length ids"
  let ?F = "\<lambda>f. Shuffle f (?n - 1) ids"
  let ?D = "{f \<in> draws ?n. take (length ys) (?F f) = ys}"
  let ?P = "{xs. length xs = ?n \<and> distinct xs \<and> set xs \<subseteq> set ids \<and> take (length ys) xs = ys}"
  have bij: "bij_betw ?F (draws ?n) {xs. length xs = ?n \<and> distinct xs \<and> set xs \<subseteq> set ids}"
    using assms(1) by (rule Shuffle_bij)
  then have inj: "inj_on ?F ?D"
    by (auto simp: bij_betw_def intro: inj_on_subset)
  have "?F ` ?D = ?P"
  proof (intro set_eqI iffI)
    fix xs
    assume "xs \<in> ?F ` ?D"
    then obtain f where f: "f \<in> draws ?n" "take (length ys) (?F f) = ys" "xs = ?F f"
      by blast
    from f(1) bij have "?F f \<in> {xs. length xs = ?n \<and> distinct xs \<and> set xs \<subseteq> set ids}"
      by (auto simp: bij_betw_def)
    with f show "xs \<in> ?P" by simp
  next
    fix xs
    assume xs: "xs \<in> ?P"
    then have "xs \<in> {xs. length xs = ?n \<and> distinct xs \<and> set xs \<subseteq> set ids}"
      by simp
    moreover from bij have "?F ` draws ?n = {xs. length xs = ?n \<and> distinct xs \<and> set xs \<subseteq> set ids}"
      by (rule bij_betw_imp_surj_on)
    ultimately have "xs \<in> ?F ` draws ?n"
      by simp
    then obtain f where "f \<in> draws ?n" "xs = ?F f"
      by blast
    with xs show "xs \<in> ?F ` ?D"
      by auto
  qed
  then have "card ?P = card ?D"
    using inj card_image by fastforce
  then show ?thesis
    using card_arrangements_prefix [OF assms] by simp
qed

section \<open>Merge\<close>

lemma MergePullRequest_merged:
  assumes "map_of (pull_requests d) prID = Some r" and "status r = PRMerged"
  shows "MergePullRequest enc now d prID = (d, Inr (row_pr (prID, r)))"
  using assms
  by (simp add: MergePullRequest_def WithTransaction_def GetPRByIDForUpdate_def fetchPR_def
      row_pr_def)

lemma MergePullRequest_open:
  assumes "map_of (pull_requests d) prID = Some r" and "status r = PROpen"
  shows "MergePullRequest enc now d prID =
           (d\<lparr>pull_requests :=
                AList.update prID (r\<lparr>status := PRMerged, merged_at := Some (enc now)\<rparr>)
                  (pull_requests d)\<rparr>,
            Inr (row_pr (prID, r\<lparr>status := PRMerged, merged_at := Some (enc now)\<rparr>)))"
  using assms
  by (simp add: MergePullRequest_def WithTransaction_def GetPRByIDForUpdate_def fetchPR_def
      row_pr_def UpdatePR_def Let_def)

lemma MergePullRequest_absent:
  assumes "map_of (pull_requests d) prID = None"
  shows "MergePullRequest enc now d prID = (d, Inl ErrNotFound)"
  using assms
  by (simp add: MergePullRequest_def WithTransaction_def GetPRByIDForUpdate_def fetchPR_def
      mapError_def)

section \<open>The store-level selectRandom refines the value-level one\<close>

lemma length_elems: "valid_slice h s \<Longrightarrow> length (elems h s) = slen s"
  by (cases s) auto

lemma length_swap_st [simp]: "length (swap_st h s i j) = length h"
  by (cases s) auto

lemma valid_swap_st: "valid_slice h s \<Longrightarrow> valid_slice (swap_st h s i j) s"
  by (cases s) auto

lemma elems_swap_st:
  assumes "valid_slice h s" and "i < slen s" and "j < slen s"
  shows "elems (swap_st h s i j) s = swap (elems h s) i j"
proof (cases s)
  case NilSlice
  with assms show ?thesis by simp
next
  case (Slice a off n)
  with assms have a: "a < length h" and n: "off + n \<le> length (h ! a)" and i: "i < n" and j: "j < n"
    by simp_all
  let ?A = "h ! a"
  have ei: "take n (drop off ?A) ! i = ?A ! (off + i)"
    using i n by simp
  have ej: "take n (drop off ?A) ! j = ?A ! (off + j)"
    using j n by simp
  have "take n (drop off (?A[off + i := ?A ! (off + j), off + j := ?A ! (off + i)])) =
        (take n (drop off ?A))[i := ?A ! (off + j), j := ?A ! (off + i)]"
    by (simp add: drop_update_swap take_update_swap)
  with Slice a ei ej show ?thesis
    by (simp add: swap_def)
qed

lemma length_Shuffle_st [simp]: "length (Shuffle_st rng i h s) = length h"
  by (induction i arbitrary: h) auto

lemma valid_Shuffle_st: "valid_slice h s \<Longrightarrow> valid_slice (Shuffle_st rng i h s) s"
  by (induction i arbitrary: h) (auto simp: valid_swap_st)

lemma elems_Shuffle_st:
  "valid_slice h s \<Longrightarrow> i < slen s \<Longrightarrow>
     elems (Shuffle_st rng i h s) s = Shuffle rng i (elems h s)"
proof (induction i arbitrary: h)
  case 0
  then show ?case by simp
next
  case (Suc i)
  let ?j = "rng (Suc i) mod (Suc i + 1)"
  have "?j < Suc i + 1"
    by (rule mod_less_divisor) simp
  then have j: "?j < slen s"
    using Suc.prems(2) by linarith
  have "elems (swap_st h s (Suc i) ?j) s = swap (elems h s) (Suc i) ?j"
    using Suc.prems j by (simp add: elems_swap_st)
  moreover have "valid_slice (swap_st h s (Suc i) ?j) s"
    using Suc.prems(1) by (rule valid_swap_st)
  moreover have "i < slen s"
    using Suc.prems(2) by simp
  ultimately show ?case
    using Suc.IH [of "swap_st h s (Suc i) ?j"] by simp
qed

lemma elems_Shuffle_st_all:
  assumes "valid_slice h s"
  shows "elems (Shuffle_st rng (slen s - 1) h s) s = Shuffle rng (slen s - 1) (elems h s)"
proof (cases "slen s")
  case 0
  then show ?thesis by simp
next
  case (Suc k)
  then have "slen s - 1 < slen s" by simp
  with assms show ?thesis by (rule elems_Shuffle_st)
qed

lemma append_nil_elems: "append_nil h xs = (h', r) \<Longrightarrow> elems h' r = xs"
  by (auto simp: append_nil_def split: if_splits)

lemma append_nil_fresh:
  "append_nil h xs = (h', r) \<Longrightarrow>
     (xs = [] \<and> r = NilSlice \<and> h' = h) \<or> (xs \<noteq> [] \<and> r = Slice (length h) 0 (length xs) \<and> h' = h @ [xs])"
  by (auto simp: append_nil_def split: if_splits)

lemma append_nil_independent:
  assumes "append_nil h xs = (h', r)" and "a < length h"
  shows "elems (h'[a := ys]) r = elems h' r"
  using append_nil_fresh [OF assms(1)] assms(2)
  by (auto simp: list_update_append nth_append)

lemma selectRandom_st_refines:
  assumes "valid_slice h ids" and "selectRandom_st rng h ids limit = Some (h', r)"
  shows "selectRandom rng (elems h ids) limit = Some (elems h' r)"
proof (cases "int (slen ids) \<le> limit")
  case True
  with assms show ?thesis
    by (auto simp: selectRandom_st_def selectRandom_def length_elems dest: append_nil_elems)
next
  case False
  let ?h = "Shuffle_st rng (slen ids - 1) h ids"
  have sh: "elems ?h ids = Shuffle rng (slen ids - 1) (elems h ids)"
    using assms(1) by (rule elems_Shuffle_st_all)
  from False assms(2) have neg: "\<not> limit < 0"
    and ap: "append_nil ?h (take (nat limit) (elems ?h ids)) = (h', r)"
    by (simp_all add: selectRandom_st_def Let_def split: if_splits)
  have "elems h' r = take (nat limit) (elems ?h ids)"
    using ap by (rule append_nil_elems)
  with False neg sh assms(1) show ?thesis
    by (simp add: selectRandom_def length_elems Let_def)
qed

lemma selectRandom_st_total:
  assumes "0 \<le> limit"
  shows "\<exists>h' r. selectRandom_st rng h ids limit = Some (h', r)"
  using assms
  by (cases "append_nil h (elems h ids)";
      cases "append_nil (Shuffle_st rng (slen ids - 1) h ids)
               (take (nat limit) (elems (Shuffle_st rng (slen ids - 1) h ids) ids))")
     (simp add: selectRandom_st_def Let_def)

lemma selectRandom_st_fresh:
  assumes "selectRandom_st rng h ids limit = Some (h', r)"
  shows "(r = NilSlice \<or> (\<exists>n. r = Slice (length h) 0 n)) \<and>
         (\<forall>a<length h. \<forall>ys. elems (h'[a := ys]) r = elems h' r)"
proof (cases "int (slen ids) \<le> limit")
  case True
  with assms have ap: "append_nil h (elems h ids) = (h', r)"
    by (simp add: selectRandom_st_def)
  show ?thesis
    using append_nil_fresh [OF ap] append_nil_independent [OF ap] by auto
next
  case False
  let ?h = "Shuffle_st rng (slen ids - 1) h ids"
  from False assms have ap: "append_nil ?h (take (nat limit) (elems ?h ids)) = (h', r)"
    by (simp add: selectRandom_st_def Let_def split: if_splits)
  have len: "length ?h = length h" by simp
  show ?thesis
    using append_nil_fresh [OF ap] append_nil_independent [OF ap] len by auto
qed

section \<open>Candidates of a team, read off the users table\<close>

lemma ListTeamMembers_candidates:
  "activeReviewers (map row_user (filter (\<lambda>(uid, r). team_name r = team) (users d))) authorID exclude =
     map fst (filter (\<lambda>(uid, r). team_name r = team \<and> is_active r \<and> uid \<noteq> authorID
                          \<and> uid \<notin> set exclude) (users d))"
proof -
  have "map UserID (filter P (map row_user (filter Q us))) =
        map fst (filter (\<lambda>x. Q x \<and> P (row_user x)) us)" for P Q and us :: "(string \<times> user_row) list"
    by (induction us) (auto simp: row_user_def)
  then show ?thesis
    unfolding activeReviewers_eq
    by (simp add: row_user_def case_prod_unfold conj_ac)
qed

lemma distinct_candidates:
  assumes "distinct (map fst (users d))"
  shows "distinct (activeReviewers (map row_user (filter (\<lambda>(uid, r). team_name r = team) (users d)))
           authorID exclude)"
  unfolding ListTeamMembers_candidates
  using assms by (rule distinct_map_filter)

lemma set_candidates:
  assumes "distinct (map fst (users d))"
  shows "set (activeReviewers (map row_user (filter (\<lambda>(uid, r). team_name r = team) (users d)))
           authorID exclude) = eligible d team (insert authorID (set exclude))"
proof -
  have key: "(uid, r) \<in> set (users d) \<longleftrightarrow> map_of (users d) uid = Some r" for uid r
    using assms by (simp add: map_of_eq_Some_iff)
  show ?thesis
    unfolding ListTeamMembers_candidates eligible_def
  proof (intro set_eqI iffI)
    fix x
    assume "x \<in> set (map fst (filter (\<lambda>(uid, r). team_name r = team \<and> is_active r \<and>
                uid \<noteq> authorID \<and> uid \<notin> set exclude) (users d)))"
    then obtain r where "(x, r) \<in> set (users d)" and "team_name r = team" and "is_active r"
      and "x \<noteq> authorID" and "x \<notin> set exclude"
      by auto
    moreover from this have "map_of (users d) x = Some r"
      by (simp add: key)
    ultimately show "x \<in> {uid \<in> fst ` set (users d).
        (case map_of (users d) uid of Some r \<Rightarrow> team_name r = team \<and> is_active r | None \<Rightarrow> False)
        \<and> uid \<notin> insert authorID (set exclude)}"
      by force
  next
    fix x
    assume "x \<in> {uid \<in> fst ` set (users d).
        (case map_of (users d) uid of Some r \<Rightarrow> team_name r = team \<and> is_active r | None \<Rightarrow> False)
        \<and> uid \<notin> insert authorID (set exclude)}"
    then obtain r where "map_of (users d) x = Some r" and "team_name r = team" and "is_active r"
      and "x \<noteq> authorID" and "x \<notin> set exclude"
      by (auto split: option.splits)
    moreover from this have "(x, r) \<in> set (users d)"
      by (simp add: key)
    ultimately show "x \<in> set (map fst (filter (\<lambda>(uid, r). team_name r = team \<and> is_active r \<and>
                uid \<noteq> authorID \<and> uid \<notin> set exclude) (users d)))"
      by force
  qed
qed

lemma length_candidates:
  assumes "distinct (map fst (users d))"
  shows "length (activeReviewers (map row_user (filter (\<lambda>(uid, r). team_name r = team) (users d)))
           authorID exclude) = card (eligible d team (insert authorID (set exclude)))"
  using distinct_candidates [OF assms, of team authorID exclude]
    set_candidates [OF assms, of team authorID exclude]
  by (metis distinct_card)

section \<open>Creation\<close>

lemma selectRandom_2: "\<exists>ys. selectRandom rng ids 2 = Some ys"
  using selectRandom_nonneg [of 2 rng ids] by auto

lemma selectRandom_1: "\<exists>ys. selectRandom rng ids 1 = Some ys"
  using selectRandom_nonneg [of 1 rng ids] by auto

lemma CreatePullRequest_no_author:
  assumes "map_of (users d) authorID = None"
  shows "CreatePullRequest enc rng dbnow d prID prName authorID = (d, Inl ErrNotFound)"
  using assms
  by (simp add: CreatePullRequest_def WithTransaction_def GetUserByID_def getUser_def
      mapError_def)

lemma CreatePullRequest_exists:
  assumes "map_of (users d) authorID = Some a" and "map_of (pull_requests d) prID = Some p"
  shows "CreatePullRequest enc rng dbnow d prID prName authorID = (d, Inl ErrPRExists)"
proof -
  obtain ys where "selectRandom rng
      (activeReviewers (map row_user (filter (\<lambda>(uid, r). team_name r = team_name a) (users d)))
         authorID []) 2 = Some ys"
    using selectRandom_2 by blast
  with assms show ?thesis
    by (simp add: CreatePullRequest_def WithTransaction_def GetUserByID_def getUser_def
        ListTeamMembers_def CreatePR_def row_user_def)
qed

lemma CreatePullRequest_ok:
  assumes "map_of (users d) authorID = Some a" and "map_of (pull_requests d) prID = None"
    and "selectRandom rng
      (activeReviewers (map row_user (filter (\<lambda>(uid, r). team_name r = team_name a) (users d)))
         authorID []) 2 = Some ys"
  shows "CreatePullRequest enc rng dbnow d prID prName authorID =
      (d\<lparr>pull_requests := pull_requests d @
            [(prID, \<lparr>pull_request_name = prName, author_id = authorID, status = PROpen,
                     assigned_reviewers = ys, created_at = dbnow, merged_at = None\<rparr>)]\<rparr>,
       Inr \<lparr>ID = prID, Name = prName, AuthorID = authorID, Status = PROpen,
            AssignedReviewers = ys, CreatedAt = Some dbnow, MergedAt = None\<rparr>)"
  using assms
  by (simp add: CreatePullRequest_def WithTransaction_def GetUserByID_def getUser_def
      ListTeamMembers_def CreatePR_def row_user_def)

section \<open>Reassignment\<close>

lemma isReviewerAssigned_iff: "isReviewerAssigned reviewers userID \<longleftrightarrow> userID \<in> set reviewers"
  by (auto simp: isReviewerAssigned_def list_ex_iff)

lemma replaceFirst_update:
  "old \<in> set rs \<Longrightarrow>
     \<exists>i<length rs. rs ! i = old \<and> (\<forall>j<i. rs ! j \<noteq> old) \<and> replaceFirst rs old new = rs[i := new]"
proof (induction rs)
  case Nil
  then show ?case by simp
next
  case (Cons r rs)
  show ?case
  proof (cases "r = old")
    case True
    then have "(r # rs) ! 0 = old \<and> (\<forall>j<0. (r # rs) ! j \<noteq> old) \<and>
        replaceFirst (r # rs) old new = (r # rs)[0 := new]"
      by simp
    then show ?thesis by blast
  next
    case False
    with Cons.prems have "old \<in> set rs" by simp
    then obtain i where i: "i < length rs" "rs ! i = old" "\<forall>j<i. rs ! j \<noteq> old"
      "replaceFirst rs old new = rs[i := new]"
      using Cons.IH by blast
    have "\<forall>j<Suc i. (r # rs) ! j \<noteq> old"
      using False i(3) by (auto simp: less_Suc_eq_0_disj)
    with i False have "Suc i < length (r # rs) \<and> (r # rs) ! Suc i = old \<and>
        (\<forall>j<Suc i. (r # rs) ! j \<noteq> old) \<and>
        replaceFirst (r # rs) old new = (r # rs)[Suc i := new]"
      by simp
    then show ?thesis by blast
  qed
qed

lemma length_replaceFirst [simp]: "length (replaceFirst rs old new) = length rs"
  by (induction rs) auto

lemma set_replaceFirst:
  "distinct rs \<Longrightarrow> old \<in> set rs \<Longrightarrow> set (replaceFirst rs old new) = insert new (set rs - {old})"
  by (induction rs) auto

lemma set_replaceFirst_subset: "set (replaceFirst rs old new) \<subseteq> insert new (set rs)"
  by (induction rs) auto

lemma distinct_replaceFirst:
  "distinct rs \<Longrightarrow> new \<notin> set rs \<Longrightarrow> distinct (replaceFirst rs old new)"
  using set_replaceFirst_subset [of _ old new]
  by (induction rs) auto

lemma selectRandom_1_cases:
  "(ids = [] \<and> selectRandom rng ids 1 = Some []) \<or>
   (\<exists>x. x \<in> set ids \<and> selectRandom rng ids 1 = Some [x])"
proof -
  obtain ys where ys: "selectRandom rng ids 1 = Some ys"
    and len: "length ys = min (nat 1) (length ids)"
    and sub: "mset ys \<subseteq># mset ids"
    using selectRandom_nonneg [of 1 rng ids] by auto
  show ?thesis
  proof (cases ids)
    case Nil
    with ys len show ?thesis by simp
  next
    case (Cons a as)
    with len have "length ys = 1" by simp
    then obtain x where x: "ys = [x]"
      by (cases ys) auto
    with sub have "x \<in> set ids"
      using set_mset_mono by fastforce
    with ys x show ?thesis by blast
  qed
qed

lemma ReassignReviewer_absent:
  assumes "map_of (pull_requests d) prID = None"
  shows "ReassignReviewer enc rng d prID oldUserID = (d, Inl ErrNotFound)"
  using assms
  by (simp add: ReassignReviewer_def WithTransaction_def GetPRByIDForUpdate_def fetchPR_def
      mapError_def)

lemma ReassignReviewer_merged:
  assumes "map_of (pull_requests d) prID = Some p" and "status p = PRMerged"
  shows "ReassignReviewer enc rng d prID oldUserID = (d, Inl ErrPRMerged)"
  using assms
  by (simp add: ReassignReviewer_def WithTransaction_def GetPRByIDForUpdate_def fetchPR_def
      mapError_def row_pr_def)

lemma ReassignReviewer_no_user:
  assumes "map_of (pull_requests d) prID = Some p" and "status p = PROpen"
    and "map_of (users d) oldUserID = None"
  shows "ReassignReviewer enc rng d prID oldUserID = (d, Inl ErrNotFound)"
  using assms
  by (simp add: ReassignReviewer_def WithTransaction_def GetPRByIDForUpdate_def fetchPR_def
      mapError_def row_pr_def GetUserByID_def getUser_def)

lemma ReassignReviewer_not_assigned:
  assumes "map_of (pull_requests d) prID = Some p" and "status p = PROpen"
    and "map_of (users d) oldUserID = Some ou"
    and "oldUserID \<notin> set (assigned_reviewers p)"
  shows "ReassignReviewer enc rng d prID oldUserID = (d, Inl ErrNotAssigned)"
  using assms
  by (simp add: ReassignReviewer_def WithTransaction_def GetPRByIDForUpdate_def fetchPR_def
      mapError_def row_pr_def GetUserByID_def getUser_def isReviewerAssigned_iff)

lemma ReassignReviewer_selected:
  assumes "map_of (pull_requests d) prID = Some p" and "status p = PROpen"
    and "map_of (users d) oldUserID = Some ou"
    and "oldUserID \<in> set (assigned_reviewers p)"
    and "selectRandom rng
           (activeReviewers (map row_user (filter (\<lambda>(uid, r). team_name r = team_name ou) (users d)))
              (author_id p) (assigned_reviewers p @ [oldUserID])) 1 = Some ys"
  shows "ReassignReviewer enc rng d prID oldUserID =
     (case ys of
        [] \<Rightarrow> (d, Inl ErrNoCandidate)
      | replacedBy # _ \<Rightarrow>
          (let p' = p\<lparr>status := PROpen,
                      assigned_reviewers := replaceFirst (assigned_reviewers p) oldUserID replacedBy,
                      merged_at := map_option enc (merged_at p)\<rparr>
           in (d\<lparr>pull_requests := AList.update prID p' (pull_requests d)\<rparr>,
               Inr (row_pr (prID, p'), replacedBy))))"
  using assms
  by (simp add: ReassignReviewer_def WithTransaction_def GetPRByIDForUpdate_def fetchPR_def
      mapError_def row_pr_def GetUserByID_def getUser_def isReviewerAssigned_iff
      activeReviewersFromTeam_def ListTeamMembers_def row_user_def UpdatePR_def Let_def
      split: list.splits)

section \<open>The invariant, read through the key lookups\<close>

lemma list_all_map_of:
  assumes "distinct (map fst al)"
  shows "list_all (\<lambda>(k, v). P k v) al \<longleftrightarrow> (\<forall>k v. map_of al k = Some v \<longrightarrow> P k v)"
  using assms by (auto simp: list_all_iff map_of_eq_Some_iff)

lemma store_inv_iff:
  "store_inv d \<longleftrightarrow>
     distinct (teams d) \<and> distinct (map fst (users d)) \<and> distinct (map fst (pull_requests d))
     \<and> (\<forall>u r. map_of (users d) u = Some r \<longrightarrow> team_name r \<in> set (teams d))
     \<and> (\<forall>k p. map_of (pull_requests d) k = Some p \<longrightarrow>
           map_of (users d) (author_id p) \<noteq> None \<and> pr_ok d p)"
proof (cases "distinct (map fst (users d)) \<and> distinct (map fst (pull_requests d))")
  case True
  then have u: "distinct (map fst (users d))" and p: "distinct (map fst (pull_requests d))"
    by simp_all
  show ?thesis
    unfolding store_inv_def schema_ok_def
      list_all_map_of [OF u, of "\<lambda>uid r. team_name r \<in> set (teams d)"]
      list_all_map_of [OF p, of "\<lambda>pid p. map_of (users d) (author_id p) \<noteq> None"]
      list_all_map_of [OF p, of "\<lambda>pid p. pr_ok d p"]
    by blast
next
  case False
  then show ?thesis
    by (auto simp: store_inv_def schema_ok_def)
qed

lemma store_inv_pr:
  assumes "store_inv d" and "map_of (pull_requests d) prID = Some p"
  shows "pr_ok d p" and "distinct (map fst (users d))"
proof -
  have "(prID, p) \<in> set (pull_requests d)"
    using assms(2) by (rule map_of_SomeD)
  with assms(1) show "pr_ok d p"
    by (auto simp: store_inv_def list_all_iff)
  show "distinct (map fst (users d))"
    using assms(1) by (simp add: store_inv_def schema_ok_def)
qed

lemma store_invD:
  assumes "store_inv d"
  shows "distinct (teams d)" and "distinct (map fst (users d))"
    and "distinct (map fst (pull_requests d))"
    and "\<And>u r. map_of (users d) u = Some r \<Longrightarrow> team_name r \<in> set (teams d)"
    and "\<And>k p. map_of (pull_requests d) k = Some p \<Longrightarrow>
        map_of (users d) (author_id p) \<noteq> None \<and> pr_ok d p"
  using assms unfolding store_inv_iff by blast+

lemma pr_ok_mono:
  assumes "pr_ok d p" and "\<And>u. map_of (users d) u \<noteq> None \<Longrightarrow> map_of (users d') u \<noteq> None"
  shows "pr_ok d' p"
  using assms by (auto simp: pr_ok_def list_all_iff)

lemma distinct_append_new:
  "map_of al k = None \<Longrightarrow> distinct (map fst al) \<Longrightarrow> distinct (map fst (al @ [(k, v)]))"
  by (auto simp: map_of_eq_None_iff)

section \<open>Effects of the team and user operations\<close>

lemma SendBatch_effect:
  assumes "team \<in> set (teams d)"
  shows "\<exists>d'. SendBatch d team ms = Inr d' \<and> teams d' = teams d
      \<and> pull_requests d' = pull_requests d
      \<and> (distinct (map fst (users d)) \<longrightarrow> distinct (map fst (users d')))
      \<and> (\<forall>u. u \<notin> tmUserID ` set ms \<longrightarrow> map_of (users d') u = map_of (users d) u)
      \<and> (\<forall>u \<in> tmUserID ` set ms. \<exists>r. map_of (users d') u = Some r \<and> team_name r = team)"
  using assms
proof (induction ms arbitrary: d)
  case Nil
  then show ?case by simp
next
  case (Cons m ms)
  let ?d1 = "d\<lparr>users := AList.update (tmUserID m)
      \<lparr>username = tmUsername m, team_name = team, is_active = tmIsActive m\<rparr> (users d)\<rparr>"
  have up: "upsert_user d (tmUserID m) (tmUsername m) team (tmIsActive m) = Inr ?d1"
    using Cons.prems by (simp add: upsert_user_def)
  have "team \<in> set (teams ?d1)"
    using Cons.prems by simp
  then obtain d' where d': "SendBatch ?d1 team ms = Inr d'" "teams d' = teams ?d1"
    "pull_requests d' = pull_requests ?d1"
    "distinct (map fst (users ?d1)) \<longrightarrow> distinct (map fst (users d'))"
    "\<forall>u. u \<notin> tmUserID ` set ms \<longrightarrow> map_of (users d') u = map_of (users ?d1) u"
    "\<forall>u \<in> tmUserID ` set ms. \<exists>r. map_of (users d') u = Some r \<and> team_name r = team"
    using Cons.IH [of ?d1] by blast
  have run: "SendBatch d team (m # ms) = Inr d'"
    using up d'(1) by simp
  have dist: "distinct (map fst (users d)) \<longrightarrow> distinct (map fst (users d'))"
    using d'(4) by (simp add: distinct_update)
  have other: "\<forall>u. u \<notin> tmUserID ` set (m # ms) \<longrightarrow> map_of (users d') u = map_of (users d) u"
    using d'(5) by (simp add: update_conv')
  have named: "\<forall>u \<in> tmUserID ` set (m # ms). \<exists>r. map_of (users d') u = Some r \<and> team_name r = team"
  proof
    fix u
    assume u: "u \<in> tmUserID ` set (m # ms)"
    show "\<exists>r. map_of (users d') u = Some r \<and> team_name r = team"
    proof (cases "u \<in> tmUserID ` set ms")
      case True
      with d'(6) show ?thesis by blast
    next
      case False
      with u have "u = tmUserID m" by auto
      moreover from False d'(5) have "map_of (users d') u = map_of (users ?d1) u" by blast
      ultimately show ?thesis by (simp add: update_conv')
    qed
  qed
  from run d'(2,3) dist other named show ?case
    by simp
qed

lemma CreateTeam_exists:
  assumes "tTeamName team \<in> set (teams d)"
  shows "CreateTeam d team = (d, Inl ErrTeamExists)"
  using assms by (simp add: CreateTeam_def CreateTeamTx_def insert_team_def)

lemma CreateTeam_new:
  assumes "tTeamName team \<notin> set (teams d)"
  shows "\<exists>d'. CreateTeam d team = (d', Inr ()) \<and> teams d' = teams d @ [tTeamName team]
      \<and> pull_requests d' = pull_requests d
      \<and> (distinct (map fst (users d)) \<longrightarrow> distinct (map fst (users d')))
      \<and> (\<forall>u. u \<notin> tmUserID ` set (Members team) \<longrightarrow> map_of (users d') u = map_of (users d) u)
      \<and> (\<forall>u \<in> tmUserID ` set (Members team).
            \<exists>r. map_of (users d') u = Some r \<and> team_name r = tTeamName team)"
proof -
  let ?d1 = "d\<lparr>teams := teams d @ [tTeamName team]\<rparr>"
  have ins: "insert_team d (tTeamName team) = Inr ?d1"
    using assms by (simp add: insert_team_def)
  have "tTeamName team \<in> set (teams ?d1)"
    by simp
  from SendBatch_effect [OF this, of "Members team"]
  obtain d' where d': "SendBatch ?d1 (tTeamName team) (Members team) = Inr d'"
    "teams d' = teams ?d1" "pull_requests d' = pull_requests ?d1"
    "distinct (map fst (users ?d1)) \<longrightarrow> distinct (map fst (users d'))"
    "\<forall>u. u \<notin> tmUserID ` set (Members team) \<longrightarrow> map_of (users d') u = map_of (users ?d1) u"
    "\<forall>u \<in> tmUserID ` set (Members team). \<exists>r. map_of (users d') u = Some r \<and> team_name r = tTeamName team"
    by blast
  show ?thesis
  proof (cases "Members team")
    case Nil
    with ins show ?thesis
      by (simp add: CreateTeam_def CreateTeamTx_def)
  next
    case (Cons m ms)
    then have "length (Members team) > 0" by simp
    with ins d'(1) have "CreateTeam d team = (d', Inr ())"
      by (simp add: CreateTeam_def CreateTeamTx_def)
    with d'(2-6) show ?thesis
      by simp
  qed
qed

lemma SetUserActiveStatus_absent:
  assumes "map_of (users d) userID = None"
  shows "SetUserActiveStatus d userID isActive = (d, Inl ErrNotFound)"
  using assms
  by (simp add: SetUserActiveStatus_def SetUserActiveStatus_repo_def mapError_def)

lemma SetUserActiveStatus_present:
  assumes "map_of (users d) userID = Some r"
  shows "SetUserActiveStatus d userID isActive =
     (d\<lparr>users := AList.update userID (r\<lparr>is_active := isActive\<rparr>) (users d)\<rparr>,
      Inr (row_user (userID, r\<lparr>is_active := isActive\<rparr>)))"
  using assms
  by (simp add: SetUserActiveStatus_def SetUserActiveStatus_repo_def)

section \<open>The pull request operations leave teams and users alone\<close>

lemma CreatePullRequest_cases:
  "CreatePullRequest enc rng dbnow d prID prName authorID = (d, Inl ErrNotFound)
   \<or> CreatePullRequest enc rng dbnow d prID prName authorID = (d, Inl ErrPRExists)
   \<or> (\<exists>a ys. map_of (users d) authorID = Some a \<and> map_of (pull_requests d) prID = None
        \<and> selectRandom rng (activeReviewers
             (map row_user (filter (\<lambda>(uid, r). team_name r = team_name a) (users d)))
             authorID []) 2 = Some ys
        \<and> CreatePullRequest enc rng dbnow d prID prName authorID =
            (d\<lparr>pull_requests := pull_requests d @
                 [(prID, \<lparr>pull_request_name = prName, author_id = authorID, status = PROpen,
                          assigned_reviewers = ys, created_at = dbnow, merged_at = None\<rparr>)]\<rparr>,
             Inr \<lparr>ID = prID, Name = prName, AuthorID = authorID, Status = PROpen,
                  AssignedReviewers = ys, CreatedAt = Some dbnow, MergedAt = None\<rparr>))"
proof (cases "map_of (users d) authorID")
  case None
  then show ?thesis by (simp add: CreatePullRequest_no_author)
next
  case (Some a)
  note au = Some
  show ?thesis
  proof (cases "map_of (pull_requests d) prID")
    case None
    obtain ys where ys: "selectRandom rng (activeReviewers
        (map row_user (filter (\<lambda>(uid, r). team_name r = team_name a) (users d))) authorID []) 2 =
        Some ys"
      using selectRandom_2 by blast
    from CreatePullRequest_ok [OF au None ys] au None ys show ?thesis
      by blast
  next
    case (Some p)
    with au show ?thesis by (simp add: CreatePullRequest_exists)
  qed
qed

lemma MergePullRequest_cases:
  "(\<exists>res. MergePullRequest enc now d prID = (d, res))
   \<or> (\<exists>r. map_of (pull_requests d) prID = Some r \<and> status r = PROpen
        \<and> MergePullRequest enc now d prID =
           (d\<lparr>pull_requests :=
                AList.update prID (r\<lparr>status := PRMerged, merged_at := Some (enc now)\<rparr>)
                  (pull_requests d)\<rparr>,
            Inr (row_pr (prID, r\<lparr>status := PRMerged, merged_at := Some (enc now)\<rparr>))))"
proof (cases "map_of (pull_requests d) prID")
  case None
  then show ?thesis by (simp add: MergePullRequest_absent)
next
  case (Some r)
  then show ?thesis
    by (cases "status r") (simp_all add: MergePullRequest_merged MergePullRequest_open)
qed

lemma ReassignReviewer_cases:
  "(\<exists>e. ReassignReviewer enc rng d prID oldUserID = (d, Inl e))
   \<or> (\<exists>p ou new. map_of (pull_requests d) prID = Some p \<and> status p = PROpen
        \<and> map_of (users d) oldUserID = Some ou
        \<and> oldUserID \<in> set (assigned_reviewers p)
        \<and> new \<in> set (activeReviewers
             (map row_user (filter (\<lambda>(uid, r). team_name r = team_name ou) (users d)))
             (author_id p) (assigned_reviewers p @ [oldUserID]))
        \<and> ReassignReviewer enc rng d prID oldUserID =
           (d\<lparr>pull_requests := AList.update prID
                (p\<lparr>status := PROpen,
                   assigned_reviewers := replaceFirst (assigned_reviewers p) oldUserID new,
                   merged_at := map_option enc (merged_at p)\<rparr>) (pull_requests d)\<rparr>,
            Inr (row_pr (prID, p\<lparr>status := PROpen,
                   assigned_reviewers := replaceFirst (assigned_reviewers p) oldUserID new,
                   merged_at := map_option enc (merged_at p)\<rparr>), new)))"
proof (cases "map_of (pull_requests d) prID")
  case None
  then show ?thesis by (simp add: ReassignReviewer_absent)
next
  case (Some p)
  note pr = Some
  show ?thesis
  proof (cases "status p")
    case PRMerged
    with pr show ?thesis by (simp add: ReassignReviewer_merged)
  next
    case PROpen
    show ?thesis
    proof (cases "map_of (users d) oldUserID")
      case None
      with pr PROpen show ?thesis by (simp add: ReassignReviewer_no_user)
    next
      case (Some ou)
      show ?thesis
      proof (cases "oldUserID \<in> set (assigned_reviewers p)")
        case False
        with pr PROpen Some show ?thesis by (simp add: ReassignReviewer_not_assigned)
      next
        case True
        let ?cands = "activeReviewers
            (map row_user (filter (\<lambda>(uid, r). team_name r = team_name ou) (users d)))
            (author_id p) (assigned_reviewers p @ [oldUserID])"
        from selectRandom_1_cases [of ?cands rng] show ?thesis
        proof
          assume "?cands = [] \<and> selectRandom rng ?cands 1 = Some []"
          then have "selectRandom rng ?cands 1 = Some []" by (rule conjunct2)
          from ReassignReviewer_selected [OF pr PROpen Some True this] show ?thesis
            by simp
        next
          assume "\<exists>x. x \<in> set ?cands \<and> selectRandom rng ?cands 1 = Some [x]"
          then obtain x where x: "x \<in> set ?cands" and sel: "selectRandom rng ?cands 1 = Some [x]"
            by blast
          from ReassignReviewer_selected [OF pr PROpen Some True sel] pr PROpen Some True x
          show ?thesis
            by (simp add: Let_def)
        qed
      qed
    qed
  qed
qed

lemma CreatePullRequest_users:
  "users (fst (CreatePullRequest enc rng dbnow d prID prName authorID)) = users d
   \<and> teams (fst (CreatePullRequest enc rng dbnow d prID prName authorID)) = teams d"
  using CreatePullRequest_cases [of enc rng dbnow d prID prName authorID] by auto

lemma MergePullRequest_users:
  "users (fst (MergePullRequest enc now d prID)) = users d
   \<and> teams (fst (MergePullRequest enc now d prID)) = teams d"
  using MergePullRequest_cases [of enc now d prID] by auto

lemma ReassignReviewer_users:
  "users (fst (ReassignReviewer enc rng d prID oldUserID)) = users d
   \<and> teams (fst (ReassignReviewer enc rng d prID oldUserID)) = teams d"
  using ReassignReviewer_cases [of enc rng d prID oldUserID] by auto

section \<open>Every operation of the service keeps the invariant\<close>

lemma candidate_is_user:
  assumes "x \<in> set (activeReviewers
      (map row_user (filter (\<lambda>(uid, r). team_name r = team) (users d))) authorID exclude)"
  shows "map_of (users d) x \<noteq> None \<and> x \<noteq> authorID \<and> x \<notin> set exclude"
proof -
  from assms have "x \<in> fst ` set (users d)" and "x \<noteq> authorID" and "x \<notin> set exclude"
    unfolding ListTeamMembers_candidates by auto
  then show ?thesis
    by (simp add: map_of_eq_None_iff)
qed

lemma store_inv_CreateTeam:
  assumes "store_inv d"
  shows "store_inv (fst (CreateTeam d team))"
proof (cases "tTeamName team \<in> set (teams d)")
  case True
  with assms show ?thesis by (simp add: CreateTeam_exists)
next
  case False
  note inv = store_invD [OF assms]
  from CreateTeam_new [OF False]
  obtain d' where d': "CreateTeam d team = (d', Inr ())" "teams d' = teams d @ [tTeamName team]"
    "pull_requests d' = pull_requests d"
    "distinct (map fst (users d)) \<longrightarrow> distinct (map fst (users d'))"
    "\<forall>u. u \<notin> tmUserID ` set (Members team) \<longrightarrow> map_of (users d') u = map_of (users d) u"
    "\<forall>u \<in> tmUserID ` set (Members team).
        \<exists>r. map_of (users d') u = Some r \<and> team_name r = tTeamName team"
    by blast
  have grow: "map_of (users d') u \<noteq> None" if "map_of (users d) u \<noteq> None" for u
    using that d'(5,6) by (cases "u \<in> tmUserID ` set (Members team)") auto
  have team: "team_name r \<in> set (teams d')" if "map_of (users d') u = Some r" for u r
  proof (cases "u \<in> tmUserID ` set (Members team)")
    case True
    with d'(6) that have "team_name r = tTeamName team" by fastforce
    with d'(2) show ?thesis by simp
  next
    case False
    with d'(5) that have "map_of (users d) u = Some r" by simp
    with inv(4) d'(2) show ?thesis by simp
  qed
  have prs: "map_of (users d') (author_id p) \<noteq> None \<and> pr_ok d' p"
    if "map_of (pull_requests d') k = Some p" for k p
  proof -
    from that d'(3) have "map_of (users d) (author_id p) \<noteq> None \<and> pr_ok d p"
      using inv(5) by simp
    then show ?thesis
      using grow pr_ok_mono by blast
  qed
  have "store_inv d'"
    unfolding store_inv_iff
    using inv(1,2,3) False d'(2,3,4) team prs by auto
  with d'(1) show ?thesis by simp
qed

lemma store_inv_SetUserActiveStatus:
  assumes "store_inv d"
  shows "store_inv (fst (SetUserActiveStatus d userID isActive))"
proof (cases "map_of (users d) userID")
  case None
  with assms show ?thesis by (simp add: SetUserActiveStatus_absent)
next
  case (Some r)
  note inv = store_invD [OF assms]
  let ?d' = "d\<lparr>users := AList.update userID (r\<lparr>is_active := isActive\<rparr>) (users d)\<rparr>"
  have grow: "map_of (users ?d') u \<noteq> None" if "map_of (users d) u \<noteq> None" for u
    using that by (simp add: update_conv')
  have team: "team_name r' \<in> set (teams ?d')" if "map_of (users ?d') u = Some r'" for u r'
    using that inv(4) [of u r'] inv(4) [OF Some]
    by (auto simp: update_conv' split: if_splits)
  have prs: "map_of (users ?d') (author_id p) \<noteq> None \<and> pr_ok ?d' p"
    if "map_of (pull_requests ?d') k = Some p" for k p
  proof -
    from that have "map_of (users d) (author_id p) \<noteq> None \<and> pr_ok d p"
      using inv(5) by simp
    then show ?thesis
      using grow pr_ok_mono by blast
  qed
  have "store_inv ?d'"
    unfolding store_inv_iff
    using inv(1,2,3) team prs by (auto simp: distinct_update)
  with Some show ?thesis by (simp add: SetUserActiveStatus_present)
qed

lemma store_inv_CreatePullRequest:
  assumes "store_inv d"
  shows "store_inv (fst (CreatePullRequest enc rng dbnow d prID prName authorID))"
proof -
  note inv = store_invD [OF assms]
  from CreatePullRequest_cases [of enc rng dbnow d prID prName authorID]
  show ?thesis
  proof (elim disjE exE conjE)
    assume "CreatePullRequest enc rng dbnow d prID prName authorID = (d, Inl ErrNotFound)"
    with assms show ?thesis by simp
  next
    assume "CreatePullRequest enc rng dbnow d prID prName authorID = (d, Inl ErrPRExists)"
    with assms show ?thesis by simp
  next
    fix a :: user_row and ys
    let ?cands = "activeReviewers
        (map row_user (filter (\<lambda>(uid, r). team_name r = team_name a) (users d))) authorID []"
    let ?row = "\<lparr>pull_request_name = prName, author_id = authorID, status = PROpen,
        assigned_reviewers = ys, created_at = dbnow, merged_at = None\<rparr>"
    let ?d' = "d\<lparr>pull_requests := pull_requests d @ [(prID, ?row)]\<rparr>"
    assume au: "map_of (users d) authorID = Some a"
      and fresh: "map_of (pull_requests d) prID = None"
      and sel: "selectRandom rng ?cands 2 = Some ys"
      and run: "CreatePullRequest enc rng dbnow d prID prName authorID =
        (?d', Inr \<lparr>ID = prID, Name = prName, AuthorID = authorID, Status = PROpen,
                  AssignedReviewers = ys, CreatedAt = Some dbnow, MergedAt = None\<rparr>)"
    from selectRandom_nonneg [of 2 rng ?cands] sel
    have len: "length ys \<le> 2" and sub: "mset ys \<subseteq># mset ?cands"
      by auto
    have dist: "distinct ys"
      using sub distinct_candidates [OF inv(2)] by (rule distinct_of_submset)
    have mem: "map_of (users d) x \<noteq> None \<and> x \<noteq> authorID" if "x \<in> set ys" for x
    proof -
      from that sub have "x \<in> set ?cands"
        using set_mset_mono by fastforce
      then show ?thesis
        using candidate_is_user by blast
    qed
    have row: "pr_ok d ?row"
      using dist len mem by (auto simp: pr_ok_def list_all_iff)
    have prs: "map_of (users ?d') (author_id p) \<noteq> None \<and> pr_ok ?d' p"
      if "map_of (pull_requests ?d') k = Some p" for k p
    proof (cases "k = prID")
      case True
      with that fresh have "p = ?row"
        by (simp add: map_add_def)
      with row au show ?thesis
        by (simp add: pr_ok_def)
    next
      case False
      with that fresh have "map_of (pull_requests d) k = Some p"
        by (simp add: map_add_def split: option.splits)
      with inv(5) show ?thesis
        by (simp add: pr_ok_def)
    qed
    have "distinct (map fst (pull_requests ?d'))"
      using distinct_append_new [OF fresh inv(3)] by simp
    then have "store_inv ?d'"
      unfolding store_inv_iff
      using inv(1,2,4) prs by auto
    with run show ?thesis by simp
  qed
qed

lemma store_inv_update_pr:
  assumes "store_inv d" and "map_of (pull_requests d) prID = Some (p :: pr_row)"
    and "pr_ok d (p' :: pr_row)" and "author_id p' = author_id p"
  shows "store_inv (d\<lparr>pull_requests := AList.update prID p' (pull_requests d)\<rparr>)"
proof -
  let ?d' = "d\<lparr>pull_requests := AList.update prID p' (pull_requests d)\<rparr>"
  note inv = store_invD [OF assms(1)]
  have prs: "map_of (users ?d') (author_id q) \<noteq> None \<and> pr_ok ?d' q"
    if "map_of (pull_requests ?d') k = Some q" for k q
  proof (cases "k = prID")
    case True
    with that have "q = p'"
      by (simp add: update_conv')
    with assms(3,4) inv(5) [OF assms(2)] show ?thesis
      by (simp add: pr_ok_def)
  next
    case False
    with that have "map_of (pull_requests d) k = Some q"
      by (simp add: update_conv')
    with inv(5) show ?thesis
      by (simp add: pr_ok_def)
  qed
  show ?thesis
    unfolding store_inv_iff
    using inv(1,2,3,4) prs by (auto simp: distinct_update)
qed

lemma store_inv_MergePullRequest:
  assumes "store_inv d"
  shows "store_inv (fst (MergePullRequest enc now d prID))"
  using MergePullRequest_cases [of enc now d prID]
proof (elim disjE exE conjE)
  fix res
  assume "MergePullRequest enc now d prID = (d, res)"
  with assms show ?thesis by simp
next
  fix r
  assume pr: "map_of (pull_requests d) prID = Some r" and "status r = PROpen"
    and run: "MergePullRequest enc now d prID =
        (d\<lparr>pull_requests :=
             AList.update prID (r\<lparr>status := PRMerged, merged_at := Some (enc now)\<rparr>)
               (pull_requests d)\<rparr>,
         Inr (row_pr (prID, r\<lparr>status := PRMerged, merged_at := Some (enc now)\<rparr>)))"
  have "pr_ok d r"
    using store_inv_pr(1) [OF assms pr] .
  then have "pr_ok d (r\<lparr>status := PRMerged, merged_at := Some (enc now)\<rparr>)"
    by (simp add: pr_ok_def)
  from store_inv_update_pr [OF assms pr this] run show ?thesis
    by simp
qed

lemma store_inv_ReassignReviewer:
  assumes "store_inv d"
  shows "store_inv (fst (ReassignReviewer enc rng d prID oldUserID))"
  using ReassignReviewer_cases [of enc rng d prID oldUserID]
proof (elim disjE exE conjE)
  fix e
  assume "ReassignReviewer enc rng d prID oldUserID = (d, Inl e)"
  with assms show ?thesis by simp
next
  fix p :: pr_row and ou :: user_row and new
  let ?p' = "p\<lparr>status := PROpen,
      assigned_reviewers := replaceFirst (assigned_reviewers p) oldUserID new,
      merged_at := map_option enc (merged_at p)\<rparr>"
  assume pr: "map_of (pull_requests d) prID = Some p" and st: "status p = PROpen"
    and asg: "oldUserID \<in> set (assigned_reviewers p)"
    and new: "new \<in> set (activeReviewers
        (map row_user (filter (\<lambda>(uid, r). team_name r = team_name ou) (users d)))
        (author_id p) (assigned_reviewers p @ [oldUserID]))"
    and run: "ReassignReviewer enc rng d prID oldUserID =
        (d\<lparr>pull_requests := AList.update prID ?p' (pull_requests d)\<rparr>,
         Inr (row_pr (prID, ?p'), new))"
  have ok: "pr_ok d p"
    using store_inv_pr(1) [OF assms pr] .
  from candidate_is_user [OF new]
  have user: "map_of (users d) new \<noteq> None" and na: "new \<noteq> author_id p"
    and fresh: "new \<notin> set (assigned_reviewers p)"
    by simp_all
  have "distinct (replaceFirst (assigned_reviewers p) oldUserID new)"
    using ok fresh by (simp add: pr_ok_def distinct_replaceFirst)
  moreover have sub: "set (replaceFirst (assigned_reviewers p) oldUserID new)
      \<subseteq> insert new (set (assigned_reviewers p))"
    by (rule set_replaceFirst_subset)
  moreover from ok st have "merged_at p = None"
    by (auto simp: pr_ok_def)
  ultimately have "pr_ok d ?p'"
    using ok user na by (auto simp: pr_ok_def list_all_iff)
  from store_inv_update_pr [OF assms pr this] run show ?thesis
    by simp
qed

lemma store_inv_step: "store_inv d \<Longrightarrow> store_inv (step enc d c)"
  by (cases c)
    (simp_all add: store_inv_CreateTeam store_inv_SetUserActiveStatus store_inv_CreatePullRequest
      store_inv_MergePullRequest store_inv_ReassignReviewer)

lemma store_inv_run: "store_inv d \<Longrightarrow> store_inv (run enc d cs)"
proof (induction cs arbitrary: d)
  case Nil
  then show ?case by (simp add: run_def)
next
  case (Cons c cs)
  from Cons.IH [OF store_inv_step [OF Cons.prems, of enc c]] show ?case
    by (simp add: run_def)
qed

lemma store_inv_reachable: "store_inv (run enc empty_db cs)"
proof -
  have "store_inv empty_db"
    by (simp add: store_inv_def schema_ok_def empty_db_def)
  then show ?thesis by (rule store_inv_run)
qed

section \<open>Merge: idempotence and frame\<close>

text \<open>
  C1. Merging is idempotent. On a pull request that is already MERGED, \<open>MergePullRequest\<close>
  returns the stored pull request as it is, with no error, and leaves the store (so also the
  merge timestamp) untouched. Hence two calls in a row on an existing pull request, whatever
  the clock shows at each, return the same pull request: the same status MERGED and the same
  \<open>MergedAt\<close>, and the second call changes nothing in the store.
\<close>

theorem MergePullRequest_idempotent:
  assumes "map_of (pull_requests d) prID = Some r"
  shows "(status r = PRMerged \<longrightarrow>
            MergePullRequest enc now d prID = (d, Inr (row_pr (prID, r))))
       \<and> (\<exists>d1 p. MergePullRequest enc now d prID = (d1, Inr p)
              \<and> MergePullRequest enc now' d1 prID = (d1, Inr p)
              \<and> Status p = PRMerged
              \<and> (status r = PRMerged \<longrightarrow> MergedAt p = merged_at r))"
proof (cases "status r")
  case PRMerged
  with assms have m: "MergePullRequest enc t d prID = (d, Inr (row_pr (prID, r)))" for t
    by (simp add: MergePullRequest_merged)
  show ?thesis
    using PRMerged m by (simp add: row_pr_def)
next
  case PROpen
  let ?r' = "r\<lparr>status := PRMerged, merged_at := Some (enc now)\<rparr>"
  let ?d1 = "d\<lparr>pull_requests := AList.update prID ?r' (pull_requests d)\<rparr>"
  have first: "MergePullRequest enc now d prID = (?d1, Inr (row_pr (prID, ?r')))"
    using assms PROpen by (rule MergePullRequest_open)
  have "map_of (pull_requests ?d1) prID = Some ?r'"
    by (simp add: update_conv')
  moreover have "status ?r' = PRMerged"
    by simp
  ultimately have second: "MergePullRequest enc now' ?d1 prID = (?d1, Inr (row_pr (prID, ?r')))"
    by (rule MergePullRequest_merged)
  have "Status (row_pr (prID, ?r')) = PRMerged"
    by (simp add: row_pr_def)
  with first second PROpen show ?thesis
    by simp
qed

theorem MergePullRequest_idempotent_witness:
  "MergePullRequest id 300 db_merged ''pr1'' = (db_merged, Inr (row_pr (''pr1'', pr1_merged)))
   \<and> (\<exists>d1 p. MergePullRequest id 300 db_merged ''pr1'' = (d1, Inr p)
          \<and> MergePullRequest id 400 d1 ''pr1'' = (d1, Inr p)
          \<and> Status p = PRMerged \<and> MergedAt p = Some 200)"
proof -
  have h: "map_of (pull_requests db_merged) ''pr1'' = Some pr1_merged"
    by (simp add: db_merged_def)
  have s: "status pr1_merged = PRMerged" and m: "merged_at pr1_merged = Some 200"
    by (simp_all add: pr1_merged_def)
  from MergePullRequest_idempotent [OF h, of id 300 400] s m show ?thesis
    by auto
qed

text \<open>
  C10. Frame of merge. On an OPEN pull request \<open>MergePullRequest\<close> succeeds; the stored row
  changes in \<open>status\<close> (to MERGED) and \<open>merged_at\<close> only, and the returned pull request has the
  identifier, name, author, reviewer list and creation timestamp it had before. No other row
  of any table changes.
\<close>

theorem MergePullRequest_frame:
  assumes "map_of (pull_requests d) prID = Some r" and "status r = PROpen"
  shows "\<exists>d' p. MergePullRequest enc now d prID = (d', Inr p)
           \<and> map_of (pull_requests d') =
               (map_of (pull_requests d))
                 (prID \<mapsto> r\<lparr>status := PRMerged, merged_at := Some (enc now)\<rparr>)
           \<and> map fst (pull_requests d') = map fst (pull_requests d)
           \<and> teams d' = teams d \<and> users d' = users d
           \<and> ID p = prID \<and> Name p = pull_request_name r \<and> AuthorID p = author_id r
           \<and> AssignedReviewers p = assigned_reviewers r
           \<and> CreatedAt p = Some (created_at r)
           \<and> Status p = PRMerged \<and> MergedAt p = Some (enc now)"
proof -
  let ?r' = "r\<lparr>status := PRMerged, merged_at := Some (enc now)\<rparr>"
  let ?d1 = "d\<lparr>pull_requests := AList.update prID ?r' (pull_requests d)\<rparr>"
  have run: "MergePullRequest enc now d prID = (?d1, Inr (row_pr (prID, ?r')))"
    using assms by (rule MergePullRequest_open)
  have "prID \<in> fst ` set (pull_requests d)"
    using assms(1) by (metis domI dom_map_of_conv_image_fst)
  then have keys: "map fst (pull_requests ?d1) = map fst (pull_requests d)"
    by (simp add: update_keys)
  have "map_of (pull_requests ?d1) = (map_of (pull_requests d))(prID \<mapsto> ?r')"
    by (simp add: update_conv')
  with run keys show ?thesis
    by (simp add: row_pr_def)
qed

theorem MergePullRequest_frame_witness:
  "\<exists>d' p. MergePullRequest id 300 db_open ''pr1'' = (d', Inr p)
      \<and> map_of (pull_requests d') =
          (map_of (pull_requests db_open))
            (''pr1'' \<mapsto> pr1_open\<lparr>status := PRMerged, merged_at := Some 300\<rparr>)
      \<and> map fst (pull_requests d') = map fst (pull_requests db_open)
      \<and> teams d' = teams db_open \<and> users d' = users db_open
      \<and> ID p = ''pr1'' \<and> Name p = ''feat'' \<and> AuthorID p = ''u1''
      \<and> AssignedReviewers p = [''u2'']
      \<and> CreatedAt p = Some 100
      \<and> Status p = PRMerged \<and> MergedAt p = Some 300"
proof -
  have h: "map_of (pull_requests db_open) ''pr1'' = Some pr1_open"
    by (simp add: db_open_def)
  have s: "status pr1_open = PROpen"
    by (simp add: pr1_open_def)
  have "pull_request_name pr1_open = ''feat''" "author_id pr1_open = ''u1''"
    "assigned_reviewers pr1_open = [''u2'']" "created_at pr1_open = 100"
    by (simp_all add: pr1_open_def)
  with MergePullRequest_frame [OF h s, of id 300] show ?thesis
    by simp
qed

section \<open>Candidate selection and random choice\<close>

text \<open>
  C6. Candidate selection. The candidates are the identifiers of exactly those members, in
  their order, that are active and whose identifier is not in the exclusion set; so an
  identifier is a candidate if and only if some member carrying it is active and it is
  neither the author's nor in the list of exclusions. The exclusion set always contains the
  author: it is the author together with the list of exclusions. For a reassignment the
  candidates are computed from the members of the given team with the exclusion set made of
  the author, every currently assigned reviewer and the reviewer being replaced.
\<close>

theorem candidate_selection:
  "activeReviewers members authorID exclude =
     map UserID (filter (\<lambda>u. IsActive u \<and> UserID u \<notin> excludeSet authorID exclude) members)
   \<and> (uid \<in> set (activeReviewers members authorID exclude) \<longleftrightarrow>
        (\<exists>u \<in> set members. UserID u = uid \<and> IsActive u \<and> uid \<noteq> authorID \<and> uid \<notin> set exclude))
   \<and> authorID \<in> excludeSet authorID exclude
   \<and> excludeSet authorID exclude = insert authorID (set exclude)
   \<and> activeReviewersFromTeam tx teamName authorID oldUserID currentReviewers =
        Inr (map UserID
              (filter (\<lambda>u. IsActive u \<and> UserID u \<notin> excludeSet authorID (currentReviewers @ [oldUserID]))
                 (map row_user (filter (\<lambda>(uid, r). team_name r = teamName) (users tx)))))
   \<and> excludeSet authorID (currentReviewers @ [oldUserID]) =
        insert authorID (insert oldUserID (set currentReviewers))"
proof -
  have list: "activeReviewers ms a ex =
      map UserID (filter (\<lambda>u. IsActive u \<and> UserID u \<notin> excludeSet a ex) ms)" for ms a ex
    by (simp add: activeReviewers_def activeReviewers_loop_eq)
  have mem: "uid \<in> set (activeReviewers members authorID exclude) \<longleftrightarrow>
        (\<exists>u \<in> set members. UserID u = uid \<and> IsActive u \<and> uid \<noteq> authorID \<and> uid \<notin> set exclude)"
    by (auto simp: activeReviewers_eq)
  have from_team: "activeReviewersFromTeam tx teamName authorID oldUserID currentReviewers =
        Inr (activeReviewers (map row_user (filter (\<lambda>(uid, r). team_name r = teamName) (users tx)))
               authorID (currentReviewers @ [oldUserID]))"
    by (simp add: activeReviewersFromTeam_def ListTeamMembers_def)
  have ex2: "excludeSet authorID (currentReviewers @ [oldUserID]) =
        insert authorID (insert oldUserID (set currentReviewers))"
    by (simp add: excludeSet_eq)
  show ?thesis
    using list [of members authorID exclude] mem from_team ex2
    by (simp only: list excludeSet_eq) simp
qed

theorem candidate_selection_witness:
  "activeReviewers
     [\<lparr>UserID = ''u1'', Username = ''user0'', TeamName = ''backend'', IsActive = True\<rparr>,
      \<lparr>UserID = ''u2'', Username = ''user1'', TeamName = ''backend'', IsActive = True\<rparr>,
      \<lparr>UserID = ''u3'', Username = ''user2'', TeamName = ''backend'', IsActive = False\<rparr>,
      \<lparr>UserID = ''u4'', Username = ''user3'', TeamName = ''backend'', IsActive = True\<rparr>]
     ''u1'' [''u4''] = [''u2'']
   \<and> activeReviewersFromTeam db_open ''backend'' ''u1'' ''u2'' [''u2''] = Inr [''u3'']"
  using candidate_selection [of
     "[\<lparr>UserID = ''u1'', Username = ''user0'', TeamName = ''backend'', IsActive = True\<rparr>,
      \<lparr>UserID = ''u2'', Username = ''user1'', TeamName = ''backend'', IsActive = True\<rparr>,
      \<lparr>UserID = ''u3'', Username = ''user2'', TeamName = ''backend'', IsActive = False\<rparr>,
      \<lparr>UserID = ''u4'', Username = ''user3'', TeamName = ''backend'', IsActive = True\<rparr>]"
     "''u1''" "[''u4'']" "''u2''" db_open "''backend''" "''u2''" "[''u2'']"]
  by (simp add: db_open_def backend_users_def row_user_def)

text \<open>
  C7. Random selection. For a slice \<open>ids\<close> of the store and a count \<open>limit \<ge> 0\<close>,
  \<open>selectRandom\<close> returns, never failing, a slice whose elements are \<open>min limit (len ids)\<close>
  entries of \<open>ids\<close> taken at different positions (a sub-multiset of the candidates, hence
  pairwise distinct when the candidates are). The returned slice is \<open>nil\<close> or lies in a
  backing array allocated by the call, at an address no slice of the store before the call
  has, so no later write to an array that existed before the call (the candidates' array
  among them) changes it. From an empty candidate slice the result is the empty \<open>nil\<close> slice.
  The value-level \<open>selectRandom\<close> used by the service computes the same elements.
  The selection is uniform: when there are more candidates than \<open>limit\<close> and they are
  pairwise distinct, every arrangement of \<open>limit\<close> distinct candidates is the result for the
  same number of the equally likely draw vectors of the shuffle (otherwise all candidates
  are returned, whatever the draws).
\<close>

theorem selectRandom_spec:
  assumes "valid_slice h ids" and "0 \<le> limit"
  shows "\<exists>h' r. selectRandom_st rng h ids limit = Some (h', r)
      \<and> selectRandom rng (elems h ids) limit = Some (elems h' r)
      \<and> length (elems h' r) = min (nat limit) (slen ids)
      \<and> mset (elems h' r) \<subseteq># mset (elems h ids)
      \<and> (distinct (elems h ids) \<longrightarrow> distinct (elems h' r))
      \<and> (r = NilSlice \<or> (\<exists>n. r = Slice (length h) 0 n))
      \<and> (\<forall>a<length h. \<forall>ys. elems (h'[a := ys]) r = elems h' r)
      \<and> (slen ids = 0 \<longrightarrow> r = NilSlice \<and> elems h' r = [])
      \<and> (distinct (elems h ids) \<and> limit < int (slen ids) \<longrightarrow>
           (\<forall>ys. distinct ys \<and> set ys \<subseteq> set (elems h ids) \<and> length ys = nat limit \<longrightarrow>
              card {f \<in> draws (slen ids). selectRandom f (elems h ids) limit = Some ys} =
                fact (slen ids - nat limit)))"
proof -
  obtain h' r where st: "selectRandom_st rng h ids limit = Some (h', r)"
    using selectRandom_st_total [OF assms(2)] by blast
  have val: "selectRandom rng (elems h ids) limit = Some (elems h' r)"
    using assms(1) st by (rule selectRandom_st_refines)
  obtain ys where ys: "selectRandom rng (elems h ids) limit = Some ys"
    and len: "length ys = min (nat limit) (length (elems h ids))"
    and sub: "mset ys \<subseteq># mset (elems h ids)"
    using selectRandom_nonneg [OF assms(2)] by blast
  from val ys have eq: "ys = elems h' r" by simp
  have len': "length (elems h' r) = min (nat limit) (slen ids)"
    using len eq assms(1) by (simp add: length_elems)
  have dist: "distinct (elems h ids) \<longrightarrow> distinct (elems h' r)"
    using sub eq distinct_of_submset by blast
  have fresh: "(r = NilSlice \<or> (\<exists>n. r = Slice (length h) 0 n)) \<and>
         (\<forall>a<length h. \<forall>ys. elems (h'[a := ys]) r = elems h' r)"
    using st by (rule selectRandom_st_fresh)
  have empty: "slen ids = 0 \<longrightarrow> r = NilSlice \<and> elems h' r = []"
  proof
    assume z: "slen ids = 0"
    then have "elems h ids = []"
      using assms(1) length_elems by fastforce
    with z assms(2) st have "append_nil h [] = (h', r)"
      by (simp add: selectRandom_st_def)
    then show "r = NilSlice \<and> elems h' r = []"
      by (simp add: append_nil_def)
  qed
  have uniform: "distinct (elems h ids) \<and> limit < int (slen ids) \<longrightarrow>
           (\<forall>ys. distinct ys \<and> set ys \<subseteq> set (elems h ids) \<and> length ys = nat limit \<longrightarrow>
              card {f \<in> draws (slen ids). selectRandom f (elems h ids) limit = Some ys} =
                fact (slen ids - nat limit))"
  proof (intro impI allI)
    fix ys
    assume a: "distinct (elems h ids) \<and> limit < int (slen ids)"
      and b: "distinct ys \<and> set ys \<subseteq> set (elems h ids) \<and> length ys = nat limit"
    let ?xs = "elems h ids"
    have n: "length ?xs = slen ids"
      using assms(1) by (rule length_elems)
    have "selectRandom f ?xs limit = Some (take (length ys) (Shuffle f (length ?xs - 1) ?xs))" for f
      using a b assms(2) n by (simp add: selectRandom_def Let_def)
    then have "{f \<in> draws (slen ids). selectRandom f ?xs limit = Some ys} =
        {f \<in> draws (length ?xs). take (length ys) (Shuffle f (length ?xs - 1) ?xs) = ys}"
      using n by simp
    moreover have "card {f \<in> draws (length ?xs). take (length ys) (Shuffle f (length ?xs - 1) ?xs) = ys} =
        fact (length ?xs - length ys)"
      using a b by (intro Shuffle_uniform) simp_all
    ultimately show "card {f \<in> draws (slen ids). selectRandom f ?xs limit = Some ys} =
        fact (slen ids - nat limit)"
      using n b by simp
  qed
  show ?thesis
    using st val len' sub eq dist fresh empty uniform by simp
qed

theorem selectRandom_spec_witness:
  "selectRandom_st (\<lambda>i. 0) [[''u2'', ''u3'', ''u4'']] (Slice 0 0 3) 2 =
     Some ([[''u3'', ''u4'', ''u2''], [''u3'', ''u4'']], Slice 1 0 2)
   \<and> selectRandom (\<lambda>i. 0) [''u2'', ''u3'', ''u4''] 2 = Some [''u3'', ''u4'']
   \<and> selectRandom_st (\<lambda>i. 0) [[]] (Slice 0 0 0) 2 = Some ([[]], NilSlice)"
proof -
  have v: "valid_slice [[''u2'', ''u3'', ''u4'']] (Slice 0 0 3)" "valid_slice [[]] (Slice 0 0 0)"
    by simp_all
  have l: "(0::int) \<le> 2"
    by simp
  have e1: "selectRandom_st (\<lambda>i. 0) [[''u2'', ''u3'', ''u4'']] (Slice 0 0 3) 2 =
     Some ([[''u3'', ''u4'', ''u2''], [''u3'', ''u4'']], Slice 1 0 2)"
    by code_simp
  have e2: "selectRandom_st (\<lambda>i. 0) [[]] (Slice 0 0 0) 2 = Some ([[]], NilSlice)"
    by code_simp
  from selectRandom_spec [OF v(1) l, of "\<lambda>i. 0"] selectRandom_spec [OF v(2) l, of "\<lambda>i. 0"] e1 e2
  show ?thesis
    by simp
qed

section \<open>Creation: assignment and errors\<close>

text \<open>
  C4. Creation never fails for lack of candidates. In a store whose \<open>users\<close> table has
  unique keys, for an existing author and an unused pull request identifier,
  \<open>CreatePullRequest\<close> succeeds and stores the pull request with status OPEN. Its reviewers
  are pairwise distinct active members of the author's team other than the author, and their
  number is the smaller of 2 and the number of such members: 2 when the team has at least two
  of them, 1 when it has exactly one, none when it has none.
\<close>

theorem CreatePullRequest_assigns:
  assumes "distinct (map fst (users d))"
    and "map_of (users d) authorID = Some a"
    and "map_of (pull_requests d) prID = None"
  shows "\<exists>d' pr. CreatePullRequest enc rng dbnow d prID prName authorID = (d', Inr pr)
      \<and> Status pr = PROpen
      \<and> map_of (pull_requests d') prID =
           Some \<lparr>pull_request_name = prName, author_id = authorID, status = PROpen,
                 assigned_reviewers = AssignedReviewers pr, created_at = dbnow,
                 merged_at = None\<rparr>
      \<and> set (AssignedReviewers pr) \<subseteq> eligible d (team_name a) {authorID}
      \<and> distinct (AssignedReviewers pr)
      \<and> authorID \<notin> set (AssignedReviewers pr)
      \<and> length (AssignedReviewers pr) = min 2 (card (eligible d (team_name a) {authorID}))"
proof -
  let ?cands = "activeReviewers
      (map row_user (filter (\<lambda>(uid, r). team_name r = team_name a) (users d))) authorID []"
  obtain ys where sel: "selectRandom rng ?cands 2 = Some ys"
    and len: "length ys = min (nat 2) (length ?cands)"
    and sub: "mset ys \<subseteq># mset ?cands"
    using selectRandom_nonneg [of 2 rng ?cands] by auto
  have set_c: "set ?cands = eligible d (team_name a) {authorID}"
    using set_candidates [OF assms(1), of "team_name a" authorID "[]"] by simp
  have len_c: "length ?cands = card (eligible d (team_name a) {authorID})"
    using length_candidates [OF assms(1), of "team_name a" authorID "[]"] by simp
  have dist: "distinct ys"
    using sub distinct_candidates [OF assms(1)] by (rule distinct_of_submset)
  have subset: "set ys \<subseteq> eligible d (team_name a) {authorID}"
    using set_mset_mono [OF sub] set_c by simp
  then have noauthor: "authorID \<notin> set ys"
    by (auto simp: eligible_def)
  have run: "CreatePullRequest enc rng dbnow d prID prName authorID =
      (d\<lparr>pull_requests := pull_requests d @
            [(prID, \<lparr>pull_request_name = prName, author_id = authorID, status = PROpen,
                     assigned_reviewers = ys, created_at = dbnow, merged_at = None\<rparr>)]\<rparr>,
       Inr \<lparr>ID = prID, Name = prName, AuthorID = authorID, Status = PROpen,
            AssignedReviewers = ys, CreatedAt = Some dbnow, MergedAt = None\<rparr>)"
    using assms(2,3) sel by (rule CreatePullRequest_ok)
  show ?thesis
    using run assms(3) dist subset noauthor len len_c by (simp add: map_add_def)
qed

theorem CreatePullRequest_assigns_witness:
  "(\<exists>d' pr. CreatePullRequest id (\<lambda>i. 0) 100 db_backend ''pr1'' ''feat'' ''u1'' = (d', Inr pr)
      \<and> Status pr = PROpen \<and> length (AssignedReviewers pr) = 2
      \<and> distinct (AssignedReviewers pr) \<and> ''u1'' \<notin> set (AssignedReviewers pr))
   \<and> (\<exists>d' pr. CreatePullRequest id (\<lambda>i. 0) 100 db_small ''pr1'' ''feat'' ''u1'' = (d', Inr pr)
      \<and> Status pr = PROpen \<and> length (AssignedReviewers pr) = 1
      \<and> ''u1'' \<notin> set (AssignedReviewers pr))
   \<and> (\<exists>d' pr. CreatePullRequest id (\<lambda>i. 0) 100 db_solo ''pr1'' ''feat'' ''u1'' = (d', Inr pr)
      \<and> Status pr = PROpen \<and> AssignedReviewers pr = [])"
proof -
  have pk: "distinct (map fst (users db_backend))" "distinct (map fst (users db_small))"
    "distinct (map fst (users db_solo))"
    by (simp_all add: db_backend_def backend_users_def db_small_def db_solo_def)
  have au: "map_of (users db_backend) ''u1'' =
      Some \<lparr>username = ''user0'', team_name = ''backend'', is_active = True\<rparr>"
    "map_of (users db_small) ''u1'' =
      Some \<lparr>username = ''user0'', team_name = ''small'', is_active = True\<rparr>"
    "map_of (users db_solo) ''u1'' =
      Some \<lparr>username = ''user0'', team_name = ''small'', is_active = True\<rparr>"
    by (simp_all add: db_backend_def backend_users_def db_small_def db_solo_def)
  have fresh: "map_of (pull_requests db_backend) ''pr1'' = None"
    "map_of (pull_requests db_small) ''pr1'' = None"
    "map_of (pull_requests db_solo) ''pr1'' = None"
    by (simp_all add: db_backend_def db_small_def db_solo_def)
  have "eligible db_backend ''backend'' {''u1''} = {''u2'', ''u3''}"
    by (auto simp: eligible_def db_backend_def backend_users_def)
  then have c2: "card (eligible db_backend ''backend'' {''u1''}) = 2"
    by simp
  have "eligible db_small ''small'' {''u1''} = {''u2''}"
    by (auto simp: eligible_def db_small_def)
  then have c1: "card (eligible db_small ''small'' {''u1''}) = 1"
    by simp
  have "eligible db_solo ''small'' {''u1''} = {}"
    by (auto simp: eligible_def db_solo_def)
  then have c0: "card (eligible db_solo ''small'' {''u1''}) = 0"
    by simp
  from CreatePullRequest_assigns [OF pk(1) au(1) fresh(1), of id "\<lambda>i. 0" 100 "''feat''"] c2
  have two: "\<exists>d' pr. CreatePullRequest id (\<lambda>i. 0) 100 db_backend ''pr1'' ''feat'' ''u1'' = (d', Inr pr)
      \<and> Status pr = PROpen \<and> length (AssignedReviewers pr) = 2
      \<and> distinct (AssignedReviewers pr) \<and> ''u1'' \<notin> set (AssignedReviewers pr)"
    by auto
  from CreatePullRequest_assigns [OF pk(2) au(2) fresh(2), of id "\<lambda>i. 0" 100 "''feat''"] c1
  have one: "\<exists>d' pr. CreatePullRequest id (\<lambda>i. 0) 100 db_small ''pr1'' ''feat'' ''u1'' = (d', Inr pr)
      \<and> Status pr = PROpen \<and> length (AssignedReviewers pr) = 1
      \<and> ''u1'' \<notin> set (AssignedReviewers pr)"
    by auto
  from CreatePullRequest_assigns [OF pk(3) au(3) fresh(3), of id "\<lambda>i. 0" 100 "''feat''"] c0
  have none: "\<exists>d' pr. CreatePullRequest id (\<lambda>i. 0) 100 db_solo ''pr1'' ''feat'' ''u1'' = (d', Inr pr)
      \<and> Status pr = PROpen \<and> AssignedReviewers pr = []"
    by auto
  from two one none show ?thesis
    by blast
qed

text \<open>
  C5. Errors of creation. When the author is not a user, \<open>CreatePullRequest\<close> fails with
  NotFound; when the author exists and the pull request identifier is already taken, it
  fails with AlreadyExists (\<open>ErrPRExists\<close>). Whenever it fails, whatever the error, the
  store after the call is the store before it: no row is written.
\<close>

theorem CreatePullRequest_errors:
  "(map_of (users d) authorID = None \<longrightarrow>
      CreatePullRequest enc rng dbnow d prID prName authorID = (d, Inl ErrNotFound))
   \<and> (map_of (users d) authorID \<noteq> None \<and> map_of (pull_requests d) prID \<noteq> None \<longrightarrow>
      CreatePullRequest enc rng dbnow d prID prName authorID = (d, Inl ErrPRExists))
   \<and> (\<forall>e. snd (CreatePullRequest enc rng dbnow d prID prName authorID) = Inl e \<longrightarrow>
      fst (CreatePullRequest enc rng dbnow d prID prName authorID) = d)"
proof (cases "map_of (users d) authorID")
  case None
  then show ?thesis
    by (simp add: CreatePullRequest_no_author)
next
  case (Some a)
  show ?thesis
  proof (cases "map_of (pull_requests d) prID")
    case None
    obtain ys where "selectRandom rng (activeReviewers
        (map row_user (filter (\<lambda>(uid, r). team_name r = team_name a) (users d))) authorID []) 2 =
        Some ys"
      using selectRandom_2 by blast
    with Some None show ?thesis
      by (simp add: CreatePullRequest_ok)
  next
    case (Some p)
    with \<open>map_of (users d) authorID = Some a\<close> show ?thesis
      by (simp add: CreatePullRequest_exists)
  qed
qed

theorem CreatePullRequest_errors_witness:
  "CreatePullRequest id (\<lambda>i. 0) 100 db_open ''pr2'' ''fix'' ''unknown'' = (db_open, Inl ErrNotFound)
   \<and> CreatePullRequest id (\<lambda>i. 0) 100 db_open ''pr1'' ''feat'' ''u1'' = (db_open, Inl ErrPRExists)"
proof -
  have a: "map_of (users db_open) ''unknown'' = None"
    and b: "map_of (users db_open) ''u1'' \<noteq> None"
    and c: "map_of (pull_requests db_open) ''pr1'' \<noteq> None"
    by (simp_all add: db_open_def backend_users_def)
  from CreatePullRequest_errors [of db_open "''unknown''" id "\<lambda>i. 0" 100 "''pr2''" "''fix''"]
    CreatePullRequest_errors [of db_open "''u1''" id "\<lambda>i. 0" 100 "''pr1''" "''feat''"] a b c
  show ?thesis
    by simp
qed

section \<open>Reassignment: replacement and errors\<close>

lemma ReassignReviewer_error_unchanged:
  assumes "snd (ReassignReviewer enc rng d prID oldUserID) = Inl e"
  shows "fst (ReassignReviewer enc rng d prID oldUserID) = d"
proof (cases "map_of (pull_requests d) prID")
  case None
  then show ?thesis by (simp add: ReassignReviewer_absent)
next
  case (Some p)
  note pr = Some
  show ?thesis
  proof (cases "status p")
    case PRMerged
    with pr show ?thesis by (simp add: ReassignReviewer_merged)
  next
    case PROpen
    show ?thesis
    proof (cases "map_of (users d) oldUserID")
      case None
      with pr PROpen show ?thesis by (simp add: ReassignReviewer_no_user)
    next
      case (Some ou)
      show ?thesis
      proof (cases "oldUserID \<in> set (assigned_reviewers p)")
        case False
        with pr PROpen Some show ?thesis by (simp add: ReassignReviewer_not_assigned)
      next
        case True
        obtain ys where ys: "selectRandom rng
           (activeReviewers (map row_user (filter (\<lambda>(uid, r). team_name r = team_name ou) (users d)))
              (author_id p) (assigned_reviewers p @ [oldUserID])) 1 = Some ys"
          using selectRandom_1 by blast
        show ?thesis
          using assms unfolding ReassignReviewer_selected [OF pr PROpen Some True ys]
          by (cases ys) (simp_all add: Let_def)
      qed
    qed
  qed
qed

text \<open>
  C2. Reassignment replaces one reviewer in place. In a store that satisfies the service's
  invariant (as every store does that the public API produces from the empty one, see
  \<open>store_inv_reachable\<close>), for an OPEN pull request, a user \<open>oldUserID\<close> that is among its reviewers, and a
  team of that user with at least one active member who is neither the author nor a current
  reviewer, \<open>ReassignReviewer\<close> succeeds. The replacement it returns is such a member; the
  new reviewer list is the old one with the entry at the position of \<open>oldUserID\<close> overwritten
  by the replacement, so it has the same length, no longer contains \<open>oldUserID\<close>, contains
  the replacement as its only new entry and has no duplicates. The list is stored, and the
  pull request stays OPEN.
\<close>

theorem ReassignReviewer_replaces:
  assumes "store_inv d"
    and "map_of (pull_requests d) prID = Some p" and "status p = PROpen"
    and "oldUserID \<in> set (assigned_reviewers p)"
    and "map_of (users d) oldUserID = Some ou"
    and "eligible d (team_name ou) (insert (author_id p) (set (assigned_reviewers p))) \<noteq> {}"
  shows "\<exists>d' pr new i. ReassignReviewer enc rng d prID oldUserID = (d', Inr (pr, new))
      \<and> new \<in> eligible d (team_name ou) (insert (author_id p) (set (assigned_reviewers p)))
      \<and> i < length (assigned_reviewers p) \<and> assigned_reviewers p ! i = oldUserID
      \<and> AssignedReviewers pr = (assigned_reviewers p)[i := new]
      \<and> length (AssignedReviewers pr) = length (assigned_reviewers p)
      \<and> oldUserID \<notin> set (AssignedReviewers pr)
      \<and> set (AssignedReviewers pr) = insert new (set (assigned_reviewers p) - {oldUserID})
      \<and> new \<notin> set (assigned_reviewers p) \<and> new \<noteq> author_id p
      \<and> distinct (AssignedReviewers pr)
      \<and> ID pr = prID \<and> Status pr = PROpen
      \<and> map_option assigned_reviewers (map_of (pull_requests d') prID) =
           Some (AssignedReviewers pr)
      \<and> map_option status (map_of (pull_requests d') prID) = Some PROpen"
proof -
  let ?revs = "assigned_reviewers p"
  let ?E = "eligible d (team_name ou) (insert (author_id p) (set ?revs))"
  let ?cands = "activeReviewers
      (map row_user (filter (\<lambda>(uid, r). team_name r = team_name ou) (users d)))
      (author_id p) (?revs @ [oldUserID])"
  have ok: "pr_ok d p" and pk: "distinct (map fst (users d))"
    using store_inv_pr [OF assms(1,2)] by simp_all
  from ok have dist: "distinct ?revs"
    by (simp add: pr_ok_def)
  have "insert (author_id p) (set (?revs @ [oldUserID])) = insert (author_id p) (set ?revs)"
    using assms(4) by auto
  then have set_c: "set ?cands = ?E"
    using set_candidates [OF pk, of "team_name ou" "author_id p" "?revs @ [oldUserID]"]
    by simp
  with assms(6) have "?cands \<noteq> []"
    by auto
  then obtain new where new: "new \<in> set ?cands" and sel: "selectRandom rng ?cands 1 = Some [new]"
    using selectRandom_1_cases [of ?cands rng] by auto
  from new set_c have newE: "new \<in> ?E"
    by simp
  then have fresh: "new \<notin> set ?revs" and noauthor: "new \<noteq> author_id p"
    by (auto simp: eligible_def)
  from fresh assms(4) have neq: "new \<noteq> oldUserID"
    by auto
  let ?revs' = "replaceFirst ?revs oldUserID new"
  let ?p' = "p\<lparr>status := PROpen, assigned_reviewers := ?revs',
               merged_at := map_option enc (merged_at p)\<rparr>"
  let ?d' = "d\<lparr>pull_requests := AList.update prID ?p' (pull_requests d)\<rparr>"
  have run: "ReassignReviewer enc rng d prID oldUserID = (?d', Inr (row_pr (prID, ?p'), new))"
    using ReassignReviewer_selected [OF assms(2,3,5,4) sel] by (simp add: Let_def)
  obtain i where i: "i < length ?revs" "?revs ! i = oldUserID" "?revs' = ?revs[i := new]"
    using replaceFirst_update [OF assms(4), of new] by blast
  have set': "set ?revs' = insert new (set ?revs - {oldUserID})"
    using dist assms(4) by (rule set_replaceFirst)
  with neq have gone: "oldUserID \<notin> set ?revs'"
    by simp
  have dist': "distinct ?revs'"
    using dist fresh by (rule distinct_replaceFirst)
  have stored: "map_of (pull_requests ?d') prID = Some ?p'"
    by (simp add: update_conv')
  show ?thesis
    by (rule exI [of _ ?d'], rule exI [of _ "row_pr (prID, ?p')"], rule exI [of _ new],
        rule exI [of _ i])
      (use run newE i set' gone fresh noauthor dist' stored in \<open>simp add: row_pr_def\<close>)
qed

theorem ReassignReviewer_replaces_witness:
  "\<exists>d' pr. ReassignReviewer id (\<lambda>i. 0) db_open ''pr1'' ''u2'' = (d', Inr (pr, ''u3''))
      \<and> AssignedReviewers pr = [''u3''] \<and> Status pr = PROpen
      \<and> map_option assigned_reviewers (map_of (pull_requests d') ''pr1'') = Some [''u3'']"
proof -
  have inv: "store_inv db_open"
    by (simp add: store_inv_def schema_ok_def pr_ok_def db_open_def backend_users_def
        pr1_open_def)
  have pr: "map_of (pull_requests db_open) ''pr1'' = Some pr1_open"
    by (simp add: db_open_def)
  have st: "status pr1_open = PROpen" and revs: "assigned_reviewers pr1_open = [''u2'']"
    and au: "author_id pr1_open = ''u1''"
    by (simp_all add: pr1_open_def)
  have asg: "''u2'' \<in> set (assigned_reviewers pr1_open)"
    by (simp add: revs)
  have ou: "map_of (users db_open) ''u2'' =
      Some \<lparr>username = ''user1'', team_name = ''backend'', is_active = True\<rparr>"
    by (simp add: db_open_def backend_users_def)
  have E: "eligible db_open ''backend'' {''u1'', ''u2''} = {''u3''}"
    by (auto simp: eligible_def db_open_def backend_users_def)
  then have ne: "eligible db_open
      (team_name \<lparr>username = ''user1'', team_name = ''backend'', is_active = True\<rparr>)
      (insert (author_id pr1_open) (set (assigned_reviewers pr1_open))) \<noteq> {}"
    by (simp add: revs au)
  from ReassignReviewer_replaces [OF inv pr st asg ou ne, of id "\<lambda>i. 0"]
  obtain d' pr' new i where
    run: "ReassignReviewer id (\<lambda>i. 0) db_open ''pr1'' ''u2'' = (d', Inr (pr', new))"
    and new: "new \<in> eligible db_open ''backend'' {''u1'', ''u2''}"
    and i: "i < length [''u2'']"
    and upd: "AssignedReviewers pr' = [''u2''][i := new]"
    and rest: "Status pr' = PROpen"
      "map_option assigned_reviewers (map_of (pull_requests d') ''pr1'') =
         Some (AssignedReviewers pr')"
    by (auto simp: revs au)
  from new E have "new = ''u3''"
    by simp
  moreover from i have "i = 0"
    by simp
  ultimately show ?thesis
    using run upd rest by simp
qed

text \<open>
  C3. Errors of reassignment, in the order the code checks them: NotFound when the pull
  request is absent; AlreadyMerged when it is MERGED; NotFound when it is OPEN and
  \<open>oldUserID\<close> is not a user; NotAssigned when \<open>oldUserID\<close> is a user that is not among the
  reviewers; NoCandidate when \<open>oldUserID\<close> is an assigned reviewer whose team has no active
  member other than the author and the current reviewers (the \<open>users\<close> table having unique
  keys). Whenever the call fails, whatever the error, the store after the call is the store
  before it.
\<close>

theorem ReassignReviewer_errors:
  "(map_of (pull_requests d) prID = None \<longrightarrow>
      ReassignReviewer enc rng d prID oldUserID = (d, Inl ErrNotFound))
   \<and> (\<forall>p. map_of (pull_requests d) prID = Some p \<and> status p = PRMerged \<longrightarrow>
      ReassignReviewer enc rng d prID oldUserID = (d, Inl ErrPRMerged))
   \<and> (\<forall>p. map_of (pull_requests d) prID = Some p \<and> status p = PROpen
        \<and> map_of (users d) oldUserID = None \<longrightarrow>
      ReassignReviewer enc rng d prID oldUserID = (d, Inl ErrNotFound))
   \<and> (\<forall>p. map_of (pull_requests d) prID = Some p \<and> status p = PROpen
        \<and> map_of (users d) oldUserID \<noteq> None \<and> oldUserID \<notin> set (assigned_reviewers p) \<longrightarrow>
      ReassignReviewer enc rng d prID oldUserID = (d, Inl ErrNotAssigned))
   \<and> (\<forall>p ou. map_of (pull_requests d) prID = Some p \<and> status p = PROpen
        \<and> map_of (users d) oldUserID = Some ou \<and> oldUserID \<in> set (assigned_reviewers p)
        \<and> distinct (map fst (users d))
        \<and> eligible d (team_name ou) (insert (author_id p) (set (assigned_reviewers p))) = {} \<longrightarrow>
      ReassignReviewer enc rng d prID oldUserID = (d, Inl ErrNoCandidate))
   \<and> (\<forall>e. snd (ReassignReviewer enc rng d prID oldUserID) = Inl e \<longrightarrow>
      fst (ReassignReviewer enc rng d prID oldUserID) = d)"
proof -
  have nocand: "ReassignReviewer enc rng d prID oldUserID = (d, Inl ErrNoCandidate)"
    if pr: "map_of (pull_requests d) prID = Some p" and st: "status p = PROpen"
      and ou: "map_of (users d) oldUserID = Some ou"
      and asg: "oldUserID \<in> set (assigned_reviewers p)"
      and pk: "distinct (map fst (users d))"
      and E: "eligible d (team_name ou) (insert (author_id p) (set (assigned_reviewers p))) = {}"
    for p ou
  proof -
    let ?cands = "activeReviewers
        (map row_user (filter (\<lambda>(uid, r). team_name r = team_name ou) (users d)))
        (author_id p) (assigned_reviewers p @ [oldUserID])"
    have "insert (author_id p) (set (assigned_reviewers p @ [oldUserID])) =
          insert (author_id p) (set (assigned_reviewers p))"
      using asg by auto
    then have "set ?cands = {}"
      using set_candidates [OF pk, of "team_name ou" "author_id p" "assigned_reviewers p @ [oldUserID]"] E
      by simp
    then have "?cands = []"
      by simp
    then have "selectRandom rng ?cands 1 = Some []"
      by (simp add: selectRandom_def)
    from ReassignReviewer_selected [OF pr st ou asg this] show ?thesis
      by simp
  qed
  show ?thesis
    using nocand
    by (auto simp: ReassignReviewer_absent ReassignReviewer_merged ReassignReviewer_no_user
        ReassignReviewer_not_assigned ReassignReviewer_error_unchanged)
qed

theorem ReassignReviewer_errors_witness:
  "ReassignReviewer id (\<lambda>i. 0) db_open ''pr9'' ''u2'' = (db_open, Inl ErrNotFound)
   \<and> ReassignReviewer id (\<lambda>i. 0) db_merged ''pr1'' ''u2'' = (db_merged, Inl ErrPRMerged)
   \<and> ReassignReviewer id (\<lambda>i. 0) db_open ''pr1'' ''u9'' = (db_open, Inl ErrNotFound)
   \<and> ReassignReviewer id (\<lambda>i. 0) db_open ''pr1'' ''u3'' = (db_open, Inl ErrNotAssigned)
   \<and> ReassignReviewer id (\<lambda>i. 0) db_small_open ''pr1'' ''u2'' = (db_small_open, Inl ErrNoCandidate)"
proof -
  have a: "map_of (pull_requests db_open) ''pr9'' = None"
    by (simp add: db_open_def)
  have b: "map_of (pull_requests db_merged) ''pr1'' = Some pr1_merged \<and> status pr1_merged = PRMerged"
    by (simp add: db_merged_def pr1_merged_def)
  have c: "map_of (pull_requests db_open) ''pr1'' = Some pr1_open \<and> status pr1_open = PROpen
      \<and> map_of (users db_open) ''u9'' = None"
    by (simp add: db_open_def pr1_open_def backend_users_def)
  have d: "map_of (pull_requests db_open) ''pr1'' = Some pr1_open \<and> status pr1_open = PROpen
      \<and> map_of (users db_open) ''u3'' \<noteq> None \<and> ''u3'' \<notin> set (assigned_reviewers pr1_open)"
    by (simp add: db_open_def pr1_open_def backend_users_def)
  have "eligible db_small_open ''small'' {''u1'', ''u2''} = {}"
    by (auto simp: eligible_def db_small_open_def)
  then have e: "map_of (pull_requests db_small_open) ''pr1'' = Some pr1_open \<and> status pr1_open = PROpen
      \<and> map_of (users db_small_open) ''u2'' =
           Some \<lparr>username = ''user1'', team_name = ''small'', is_active = True\<rparr>
      \<and> ''u2'' \<in> set (assigned_reviewers pr1_open)
      \<and> distinct (map fst (users db_small_open))
      \<and> eligible db_small_open
           (team_name \<lparr>username = ''user1'', team_name = ''small'', is_active = True\<rparr>)
           (insert (author_id pr1_open) (set (assigned_reviewers pr1_open))) = {}"
    by (simp add: db_small_open_def pr1_open_def)
  from ReassignReviewer_errors [of db_open "''pr9''" id "\<lambda>i. 0" "''u2''"] a
  have 1: "ReassignReviewer id (\<lambda>i. 0) db_open ''pr9'' ''u2'' = (db_open, Inl ErrNotFound)"
    by blast
  from ReassignReviewer_errors [of db_merged "''pr1''" id "\<lambda>i. 0" "''u2''"] b
  have 2: "ReassignReviewer id (\<lambda>i. 0) db_merged ''pr1'' ''u2'' = (db_merged, Inl ErrPRMerged)"
    by blast
  from ReassignReviewer_errors [of db_open "''pr1''" id "\<lambda>i. 0" "''u9''"] c
  have 3: "ReassignReviewer id (\<lambda>i. 0) db_open ''pr1'' ''u9'' = (db_open, Inl ErrNotFound)"
    by blast
  from ReassignReviewer_errors [of db_open "''pr1''" id "\<lambda>i. 0" "''u3''"] d
  have 4: "ReassignReviewer id (\<lambda>i. 0) db_open ''pr1'' ''u3'' = (db_open, Inl ErrNotAssigned)"
    by blast
  from ReassignReviewer_errors [of db_small_open "''pr1''" id "\<lambda>i. 0" "''u2''"] e
  have 5: "ReassignReviewer id (\<lambda>i. 0) db_small_open ''pr1'' ''u2'' =
      (db_small_open, Inl ErrNoCandidate)"
    by blast
  from 1 2 3 4 5 show ?thesis
    by simp
qed

section \<open>The team reference of a user\<close>

text \<open>
  C8, as the claim states it, fails: \<open>CreateTeam\<close> upserts the users it is given, and the
  upsert overwrites \<open>team_name\<close>. After team \<open>backend\<close> is created with member \<open>u1\<close>,
  creating team \<open>platform\<close> with a member list that names \<open>u1\<close> moves \<open>u1\<close> from
  \<open>backend\<close> to \<open>platform\<close>.
\<close>

theorem team_reference_counterexample:
  "map_option team_name
     (map_of (users (run id empty_db [CallCreateTeam backend])) ''u1'') = Some ''backend''
   \<and> map_option team_name
     (map_of (users (run id empty_db [CallCreateTeam backend, CallCreateTeam platform])) ''u1'') =
       Some ''platform''"
  by (simp add: run_def CreateTeam_def CreateTeamTx_def insert_team_def upsert_user_def
      empty_db_def backend_def platform_def)

text \<open>
  C8, amended. A user, once it exists, is never removed, and what a call of the public API
  does to its team reference is fixed by the call: a \<open>CreateTeam\<close> of a team name not yet in
  the store whose member list names the user's identifier moves the user to the newly
  created team; every other call (a \<open>CreateTeam\<close> of an existing team name or one that does
  not name the user, and every call of the other six operations) leaves the team reference
  as it is. So over a sequence of calls in which no \<open>CreateTeam\<close> names the user, the team
  reference does not change.
\<close>

theorem team_reference_step:
  assumes "map_of (users d) uid = Some r"
  shows "(\<exists>r'. map_of (users (step enc d c)) uid = Some r'
          \<and> (\<forall>team. c = CallCreateTeam team \<and> tTeamName team \<notin> set (teams d)
                  \<and> uid \<in> tmUserID ` set (Members team)
                \<longrightarrow> team_name r' = tTeamName team)
          \<and> ((\<forall>team. c = CallCreateTeam team \<longrightarrow>
                  tTeamName team \<in> set (teams d) \<or> uid \<notin> tmUserID ` set (Members team))
                \<longrightarrow> team_name r' = team_name r))
       \<and> ((\<forall>c \<in> set cs. \<forall>team. c = CallCreateTeam team \<longrightarrow> uid \<notin> tmUserID ` set (Members team))
            \<longrightarrow> map_option team_name (map_of (users (run enc d cs)) uid) = Some (team_name r))"
proof
  have one: "\<exists>r'. map_of (users (step enc d c)) uid = Some r'
          \<and> (\<forall>team. c = CallCreateTeam team \<and> tTeamName team \<notin> set (teams d)
                  \<and> uid \<in> tmUserID ` set (Members team)
                \<longrightarrow> team_name r' = tTeamName team)
          \<and> ((\<forall>team. c = CallCreateTeam team \<longrightarrow>
                  tTeamName team \<in> set (teams d) \<or> uid \<notin> tmUserID ` set (Members team))
                \<longrightarrow> team_name r' = team_name r)"
    if "map_of (users d) uid = Some r" for d and r :: user_row and c
  proof (cases c)
    case (CallCreateTeam team)
    show ?thesis
    proof (cases "tTeamName team \<in> set (teams d)")
      case True
      with CallCreateTeam that show ?thesis
        by (simp add: CreateTeam_exists)
    next
      case False
      from CreateTeam_new [OF False]
      obtain d' where d': "CreateTeam d team = (d', Inr ())"
        "\<forall>u. u \<notin> tmUserID ` set (Members team) \<longrightarrow> map_of (users d') u = map_of (users d) u"
        "\<forall>u \<in> tmUserID ` set (Members team).
            \<exists>r. map_of (users d') u = Some r \<and> team_name r = tTeamName team"
        by blast
      show ?thesis
      proof (cases "uid \<in> tmUserID ` set (Members team)")
        case True
        with d'(3) obtain r' where "map_of (users d') uid = Some r'" "team_name r' = tTeamName team"
          by blast
        with CallCreateTeam d'(1) False True show ?thesis
          by auto
      next
        case False
        with d'(2) have "map_of (users d') uid = map_of (users d) uid"
          by blast
        with CallCreateTeam d'(1) that False show ?thesis
          by simp
      qed
    qed
  next
    case (CallGetTeam teamName)
    with that show ?thesis by simp
  next
    case (CallSetUserActiveStatus userID isActive)
    show ?thesis
    proof (cases "map_of (users d) userID")
      case None
      with CallSetUserActiveStatus that show ?thesis
        by (simp add: SetUserActiveStatus_absent)
    next
      case (Some ru)
      with CallSetUserActiveStatus that show ?thesis
        by (auto simp: SetUserActiveStatus_present update_conv')
    qed
  next
    case (CallGetUserReviewPRs userID)
    with that show ?thesis by simp
  next
    case (CallCreatePullRequest rng dbnow prID prName authorID)
    with that show ?thesis by (simp add: CreatePullRequest_users)
  next
    case (CallMergePullRequest now prID)
    with that show ?thesis by (simp add: MergePullRequest_users)
  next
    case (CallReassignReviewer rng prID oldUserID)
    with that show ?thesis by (simp add: ReassignReviewer_users)
  qed
  from one [OF assms] show "\<exists>r'. map_of (users (step enc d c)) uid = Some r'
          \<and> (\<forall>team. c = CallCreateTeam team \<and> tTeamName team \<notin> set (teams d)
                  \<and> uid \<in> tmUserID ` set (Members team)
                \<longrightarrow> team_name r' = tTeamName team)
          \<and> ((\<forall>team. c = CallCreateTeam team \<longrightarrow>
                  tTeamName team \<in> set (teams d) \<or> uid \<notin> tmUserID ` set (Members team))
                \<longrightarrow> team_name r' = team_name r)" .
  show "(\<forall>c \<in> set cs. \<forall>team. c = CallCreateTeam team \<longrightarrow> uid \<notin> tmUserID ` set (Members team))
            \<longrightarrow> map_option team_name (map_of (users (run enc d cs)) uid) = Some (team_name r)"
    using assms
  proof (induction cs arbitrary: d r)
    case Nil
    then show ?case by (simp add: run_def)
  next
    case (Cons c cs)
    show ?case
    proof
      assume no: "\<forall>c' \<in> set (c # cs). \<forall>team. c' = CallCreateTeam team \<longrightarrow>
          uid \<notin> tmUserID ` set (Members team)"
      then have "\<forall>team. c = CallCreateTeam team \<longrightarrow>
          tTeamName team \<in> set (teams d) \<or> uid \<notin> tmUserID ` set (Members team)"
        by simp
      with one [OF Cons.prems, of c]
      obtain r' where r': "map_of (users (step enc d c)) uid = Some r'" "team_name r' = team_name r"
        by blast
      from Cons.IH [OF r'(1)] no r'(2)
      have "map_option team_name (map_of (users (run enc (step enc d c) cs)) uid) =
          Some (team_name r)"
        by simp
      then show "map_option team_name (map_of (users (run enc d (c # cs))) uid) =
          Some (team_name r)"
        by (simp add: run_def)
    qed
  qed
qed

theorem team_reference_step_witness:
  "map_option team_name (map_of (users (step id db_open (CallCreateTeam platform))) ''u1'') =
     Some ''platform''
   \<and> map_option team_name (map_of (users (step id db_open (CallCreateTeam backend))) ''u1'') =
     Some ''backend''
   \<and> map_option team_name
       (map_of (users (run id db_open
          [CallSetUserActiveStatus ''u1'' False, CallMergePullRequest 300 ''pr1''])) ''u1'') =
       Some ''backend''"
proof -
  have u: "map_of (users db_open) ''u1'' =
      Some \<lparr>username = ''user0'', team_name = ''backend'', is_active = True\<rparr>"
    by (simp add: db_open_def backend_users_def)
  have no: "\<forall>c \<in> set [CallSetUserActiveStatus ''u1'' False, CallMergePullRequest 300 ''pr1''].
      \<forall>team. c = CallCreateTeam team \<longrightarrow> ''u1'' \<notin> tmUserID ` set (Members team)"
    by simp
  have new: "tTeamName platform \<notin> set (teams db_open)"
    and named: "''u1'' \<in> tmUserID ` set (Members platform)"
    and name: "tTeamName platform = ''platform''"
    by (simp_all add: platform_def db_open_def)
  have old: "tTeamName backend \<in> set (teams db_open)"
    by (simp add: backend_def db_open_def)
  from team_reference_step [OF u, of id "CallCreateTeam platform"
      "[CallSetUserActiveStatus ''u1'' False, CallMergePullRequest 300 ''pr1'']"] no new named name
  have a: "map_option team_name
      (map_of (users (step id db_open (CallCreateTeam platform))) ''u1'') = Some ''platform''"
    and c: "map_option team_name
       (map_of (users (run id db_open
          [CallSetUserActiveStatus ''u1'' False, CallMergePullRequest 300 ''pr1''])) ''u1'') =
       Some ''backend''"
    by auto
  from team_reference_step [OF u, of id "CallCreateTeam backend" "[]"] old
  have b: "map_option team_name
      (map_of (users (step id db_open (CallCreateTeam backend))) ''u1'') = Some ''backend''"
    by auto
  from a b c show ?thesis
    by simp
qed

end
